theory Spec2Isabelle
  imports Complex_Main "HOL-Library.Multiset"
begin

section \<open>Python strings and ordered dictionaries\<close>

text \<open>
  A Python \<open>str\<close> is a sequence of Unicode code points; it is modelled as a list of
  natural numbers, one per code point.  \<open>str\<close> turns an ASCII literal into such a list.
\<close>

type_synonym pystr = "nat list"

definition str :: "string \<Rightarrow> pystr" where
  "str s = map of_char s"

text \<open>
  A \<open>dict\<close> keeps its keys in insertion order: an association list with distinct keys.
  \<open>d[k] = v\<close> replaces the value in place when the key is present and appends the entry
  otherwise; \<open>k in d\<close> and \<open>d[k]\<close> search the keys.
\<close>

type_synonym ('k, 'v) pydict = "('k \<times> 'v) list"

type_synonym pyrecord = "(pystr, pystr) pydict"

fun dict_set :: "('k, 'v) pydict \<Rightarrow> 'k \<Rightarrow> 'v \<Rightarrow> ('k, 'v) pydict" where
  "dict_set [] k v = [(k, v)]"
| "dict_set ((k', v') # d) k v =
     (if k' = k then (k, v) # d else (k', v') # dict_set d k v)"

fun dict_get :: "('k, 'v) pydict \<Rightarrow> 'k \<Rightarrow> 'v option" where
  "dict_get [] k = None"
| "dict_get ((k', v') # d) k = (if k' = k then Some v' else dict_get d k)"

definition dict_keys :: "('k, 'v) pydict \<Rightarrow> 'k list" where
  "dict_keys d = map fst d"

definition dict_contains :: "('k, 'v) pydict \<Rightarrow> 'k \<Rightarrow> bool" where
  "dict_contains d k = (k \<in> set (dict_keys d))"

section \<open>The string operations the extractor uses\<close>

text \<open>
  \<open>str.isspace\<close> of one character, which is also what \<open>str.strip()\<close> removes and what
  \<open>\s\<close> matches in a \<open>str\<close> pattern.
\<close>

definition is_space :: "nat \<Rightarrow> bool" where
  "is_space c = ((9 \<le> c \<and> c \<le> 13) \<or> (28 \<le> c \<and> c \<le> 32) \<or> c = 133 \<or> c = 160
      \<or> c = 5760 \<or> (8192 \<le> c \<and> c \<le> 8202) \<or> c = 8232 \<or> c = 8233
      \<or> c = 8239 \<or> c = 8287 \<or> c = 12288)"

text \<open>The line boundaries of \<open>str.splitlines()\<close>.\<close>

definition is_linebreak :: "nat \<Rightarrow> bool" where
  "is_linebreak c = ((10 \<le> c \<and> c \<le> 13) \<or> (28 \<le> c \<and> c \<le> 30) \<or> c = 133
      \<or> c = 8232 \<or> c = 8233)"

definition newline :: nat where
  "newline = 10"

definition colon :: nat where
  "colon = 58"

definition strip :: "pystr \<Rightarrow> pystr" where
  "strip s = rev (dropWhile is_space (rev (dropWhile is_space s)))"

text \<open>
  \<open>text.splitlines()\<close>: the text is cut at every line boundary, \<open>\r\n\<close> counting as one;
  the boundaries are dropped, and a boundary at the very end opens no further line.
  The first argument is the line read so far.
\<close>

fun splitlines_from :: "pystr \<Rightarrow> pystr \<Rightarrow> pystr list" where
  "splitlines_from cur [] = (if cur = [] then [] else [cur])"
| "splitlines_from cur [c] = (if is_linebreak c then [cur] else [cur @ [c]])"
| "splitlines_from cur (c # d # cs) =
     (if c = 13 \<and> d = 10 then cur # splitlines_from [] cs
      else if is_linebreak c then cur # splitlines_from [] (d # cs)
      else splitlines_from (cur @ [c]) (d # cs))"

definition splitlines :: "pystr \<Rightarrow> pystr list" where
  "splitlines text = splitlines_from [] text"

text \<open>
  \<open>re.search(r'(.+?):\s*(.*)', line)\<close>.  At a start position the lazy group takes one
  character other than a newline and then as few more as needed to stand before a colon;
  \<open>\s*\<close> then takes all the white space that follows and the second group the rest up
  to the next newline, so the first colon found decides the match.  The search tries the
  start positions from left to right.  The result holds the two groups.
\<close>

fun lazy_group :: "pystr \<Rightarrow> pystr \<Rightarrow> (pystr \<times> pystr) option" where
  "lazy_group acc [] = None"
| "lazy_group acc (c # cs) =
     (if c = colon then Some (acc, cs)
      else if c = newline then None
      else lazy_group (acc @ [c]) cs)"

definition match_at :: "pystr \<Rightarrow> (pystr \<times> pystr) option" where
  "match_at s =
     (case s of
        [] \<Rightarrow> None
      | c # cs \<Rightarrow>
          if c = newline then None
          else (case lazy_group [c] cs of
                  None \<Rightarrow> None
                | Some (g1, rest) \<Rightarrow>
                    Some (g1, takeWhile (\<lambda>x. x \<noteq> newline) (dropWhile is_space rest))))"

fun re_search :: "pystr \<Rightarrow> (pystr \<times> pystr) option" where
  "re_search [] = match_at []"
| "re_search (c # cs) =
     (case match_at (c # cs) of
        Some m \<Rightarrow> Some m
      | None \<Rightarrow> re_search cs)"

section \<open>InformationExtractor.extract_information\<close>

text \<open>
  What one line contributes in the first loop: \<open>match.group(1).strip()\<close> and
  \<open>match.group(2).strip()\<close> when the pattern is found in the line.
\<close>

definition key_value :: "pystr \<Rightarrow> (pystr \<times> pystr) option" where
  "key_value line =
     (case re_search line of
        None \<Rightarrow> None
      | Some (g1, g2) \<Rightarrow> Some (strip g1, strip g2))"

text \<open>The first loop: every line the pattern matches writes \<open>results[key] = value\<close>.\<close>

fun first_pass :: "pyrecord \<Rightarrow> pystr list \<Rightarrow> pyrecord" where
  "first_pass results [] = results"
| "first_pass results (line # lines) =
     first_pass
       (case key_value line of
          None \<Rightarrow> results
        | Some (key, val) \<Rightarrow> dict_set results key val)
       lines"

text \<open>The second loop: \<open>if line and line not in results: results[line] = ""\<close>.\<close>

fun second_pass :: "pyrecord \<Rightarrow> pystr list \<Rightarrow> pyrecord" where
  "second_pass results [] = results"
| "second_pass results (line # lines) =
     second_pass
       (if line \<noteq> [] \<and> \<not> dict_contains results line then dict_set results line []
        else results)
       lines"

definition extract_information :: "pystr \<Rightarrow> pyrecord" where
  "extract_information text =
     (let lines = splitlines text in second_pass (first_pass [] lines) lines)"

section \<open>DocumentParser.parse_document\<close>

text \<open>
  The decoders and the path functions are libraries outside the program; they are
  parameters of the model.  \<open>splitext\<close> is \<open>os.path.splitext\<close> and \<open>lower\<close> is
  \<open>str.lower\<close>.  \<open>pdf_pages path\<close> is the list of \<open>page.extract_text()\<close> over the pages
  of \<open>pdfplumber.open(path)\<close>, and \<open>html_text path\<close> is \<open>soup.get_text(separator='\n')\<close>
  once the script and style elements are removed; either is \<open>None\<close> when anything inside
  the \<open>try\<close> block raises, which the \<open>except\<close> clause turns into the empty text.
\<close>

record decoders =
  splitext :: "pystr \<Rightarrow> pystr \<times> pystr"
  lower :: "pystr \<Rightarrow> pystr"
  pdf_pages :: "pystr \<Rightarrow> pystr list option"
  html_text :: "pystr \<Rightarrow> pystr option"

text \<open>\<open>sep.join(xs)\<close>.\<close>

fun join :: "pystr \<Rightarrow> pystr list \<Rightarrow> pystr" where
  "join sep [] = []"
| "join sep [x] = x"
| "join sep (x # y # ys) = x @ sep @ join sep (y # ys)"

definition parse_pdf :: "decoders \<Rightarrow> pystr \<Rightarrow> pystr" where
  "parse_pdf d file_path =
     (case pdf_pages d file_path of
        None \<Rightarrow> []
      | Some pages \<Rightarrow> strip (join [newline] pages))"

definition parse_html :: "decoders \<Rightarrow> pystr \<Rightarrow> pystr" where
  "parse_html d file_path =
     (case html_text d file_path of
        None \<Rightarrow> []
      | Some content \<Rightarrow> strip content)"

definition parse_document :: "decoders \<Rightarrow> pystr \<Rightarrow> pystr" where
  "parse_document d file_path =
     (let ext = snd (splitext d file_path) in
      if lower d ext = str ''.pdf'' then parse_pdf d file_path
      else if lower d ext = str ''.html'' then parse_html d file_path
      else [])"

text \<open>
  The two comprehensions of \<open>main\<close>: \<open>parsed_docs\<close> and \<open>extracted_info\<close>, the corpus
  that is saved and indexed.
\<close>

definition extracted_info :: "decoders \<Rightarrow> pystr list \<Rightarrow> pyrecord list" where
  "extracted_info d document_paths =
     (let parsed_docs = map (parse_document d) document_paths
      in map extract_information parsed_docs)"

text \<open>
  A document gives no text when its extension is neither \<open>.pdf\<close> nor \<open>.html\<close>, or when
  the decoder chosen for it fails.
\<close>

definition unsupported :: "decoders \<Rightarrow> pystr \<Rightarrow> bool" where
  "unsupported d file_path =
     (lower d (snd (splitext d file_path)) \<noteq> str ''.pdf''
      \<and> lower d (snd (splitext d file_path)) \<noteq> str ''.html'')"

definition decode_fails :: "decoders \<Rightarrow> pystr \<Rightarrow> bool" where
  "decode_fails d file_path =
     (if lower d (snd (splitext d file_path)) = str ''.pdf'' then pdf_pages d file_path = None
      else if lower d (snd (splitext d file_path)) = str ''.html'' then html_text d file_path = None
      else False)"

section \<open>RAGModel\<close>

text \<open>
  The two dictionaries of the model, keyed by the position of a document.  The sentence
  encoder (\<open>self.model.encode([s])[0]\<close>) and \<open>cosine_similarity([a], [b])[0][0]\<close> are
  libraries outside the program: \<open>encode\<close> and \<open>cosine_similarity\<close> are parameters, the
  scores being values of a linear order.  The score of the library itself is defined at
  the end of this section, for the claim that depends on what it computes.
\<close>

record 'v rag_model =
  document_embeddings :: "(nat, 'v) pydict"
  documents :: "(nat, pyrecord) pydict"

definition init :: "'v rag_model" where
  "init = \<lparr>document_embeddings = [], documents = []\<rparr>"

text \<open>\<open>' '.join(f"{k}: {v}" for k, v in content.items() if v)\<close>.\<close>

definition representative :: "pyrecord \<Rightarrow> pystr" where
  "representative content =
     join (str '' '') (map (\<lambda>(k, v). k @ str '': '' @ v) (filter (\<lambda>(k, v). v \<noteq> []) content))"

fun add_loop :: "(pystr \<Rightarrow> 'v) \<Rightarrow> 'v rag_model \<Rightarrow> (nat \<times> pyrecord) list \<Rightarrow> 'v rag_model" where
  "add_loop encode m [] = m"
| "add_loop encode m ((index, content) # rest) =
     add_loop encode
       (m\<lparr>document_embeddings :=
            dict_set (document_embeddings m) index (encode (representative content)),
          documents := dict_set (documents m) index content\<rparr>)
       rest"

definition add_documents :: "(pystr \<Rightarrow> 'v) \<Rightarrow> 'v rag_model \<Rightarrow> pyrecord list \<Rightarrow> 'v rag_model" where
  "add_documents encode m docs = add_loop encode m (enumerate 0 docs)"

datatype py_error = KeyError

text \<open>The loop of \<open>query\<close> that fills \<open>similarities\<close>, in the order of the stored embeddings.\<close>

fun similarity_loop ::
  "('v \<Rightarrow> 'v \<Rightarrow> 's) \<Rightarrow> 'v \<Rightarrow> (nat, 's) pydict \<Rightarrow> (nat \<times> 'v) list \<Rightarrow> (nat, 's) pydict" where
  "similarity_loop cosine_similarity q similarities [] = similarities"
| "similarity_loop cosine_similarity q similarities ((index, doc_embedding) # rest) =
     similarity_loop cosine_similarity q
       (dict_set similarities index (cosine_similarity q doc_embedding)) rest"

text \<open>
  \<open>sorted(items, key=lambda x: x[1], reverse=True)\<close>: a stable sort, which with
  \<open>reverse=True\<close> is the stable ascending sort of the reversed list, reversed again, so
  that items with equal keys keep their order.
\<close>

definition sorted_reverse :: "(nat \<times> 's::linorder) list \<Rightarrow> (nat \<times> 's) list" where
  "sorted_reverse items = rev (sort_key snd (rev items))"

text \<open>\<open>xs[:k]\<close>: a negative \<open>k\<close> counts from the end.\<close>

definition slice_to :: "'a list \<Rightarrow> int \<Rightarrow> 'a list" where
  "slice_to xs k = (if k < 0 then take (nat (int (length xs) + k)) xs else take (nat k) xs)"

text \<open>The last loop of \<open>query\<close>: \<open>self.documents[index]\<close> raises when the key is missing.\<close>

fun collect :: "(nat, pyrecord) pydict \<Rightarrow> (nat \<times> 's) list \<Rightarrow> py_error + pyrecord list" where
  "collect docs [] = Inr []"
| "collect docs ((index, score) # rest) =
     (case dict_get docs index of
        None \<Rightarrow> Inl KeyError
      | Some content \<Rightarrow>
          (case collect docs rest of
             Inl e \<Rightarrow> Inl e
           | Inr results \<Rightarrow> Inr (content # results)))"

definition sorted_docs ::
  "(pystr \<Rightarrow> 'v) \<Rightarrow> ('v \<Rightarrow> 'v \<Rightarrow> 's::linorder) \<Rightarrow> 'v rag_model \<Rightarrow> pystr \<Rightarrow> (nat \<times> 's) list" where
  "sorted_docs encode cosine_similarity m question =
     sorted_reverse
       (similarity_loop cosine_similarity (encode question) [] (document_embeddings m))"

definition query ::
  "(pystr \<Rightarrow> 'v) \<Rightarrow> ('v \<Rightarrow> 'v \<Rightarrow> 's::linorder) \<Rightarrow> 'v rag_model \<Rightarrow> pystr \<Rightarrow> int
     \<Rightarrow> py_error + pyrecord list" where
  "query encode cosine_similarity m question top_k =
     collect (documents m) (slice_to (sorted_docs encode cosine_similarity m question) top_k)"

text \<open>
  The states the program can reach: both dictionaries hold the positions \<open>0, 1, \<dots>\<close> in
  ascending order, as \<open>enumerate\<close> hands them out.
\<close>

definition stored :: "'v rag_model \<Rightarrow> bool" where
  "stored m =
     (dict_keys (document_embeddings m) = [0..<length (document_embeddings m)]
      \<and> dict_keys (documents m) = [0..<length (document_embeddings m)])"

subsection \<open>The score\<close>

text \<open>
  \<open>sklearn.metrics.pairwise.cosine_similarity\<close> on two single rows: each row is divided
  by its Euclidean norm, a norm of zero being replaced by 1, and the score is the dot
  product of the two results, that is \<open>dot(a, b) / (norm(a) * norm(b))\<close> for rows other than
  zero.  Embedding vectors are lists of real numbers, so the arithmetic is exact.  The
  rows of one encoder have one length, and the library refuses rows of different lengths;
  the dot product below is only used on rows of one length.
\<close>

definition dot :: "real list \<Rightarrow> real list \<Rightarrow> real" where
  "dot a b = sum_list (map (\<lambda>(x, y). x * y) (zip a b))"

definition row_norm :: "real list \<Rightarrow> real" where
  "row_norm a = sqrt (sum_list (map (\<lambda>x. x * x) a))"

definition normalize_row :: "real list \<Rightarrow> real list" where
  "normalize_row a = map (\<lambda>x. x / (if row_norm a = 0 then 1 else row_norm a)) a"

definition cosine_similarity :: "real list \<Rightarrow> real list \<Rightarrow> real" where
  "cosine_similarity a b = dot (normalize_row a) (normalize_row b)"

section \<open>InformationExtractor.save_to_json\<close>

text \<open>
  \<open>json.dump(data, f, indent=4)\<close> writes the chunks of the pure-Python encoder of the
  \<open>json\<close> library (the one used when \<open>indent\<close> is given), with \<open>ensure_ascii\<close> at its
  default: the functions below follow \<open>py_encode_basestring_ascii\<close>, \<open>_iterencode_dict\<close>
  and \<open>_iterencode_list\<close> of \<open>json/encoder.py\<close> on a list of dictionaries from strings to
  strings.  The file is opened with UTF-8 and the text is ASCII, so the text is the content
  of the file.
\<close>

abbreviation quote :: nat where
  "quote \<equiv> 34"
abbreviation backslash :: nat where
  "backslash \<equiv> 92"

text \<open>\<open>'{0:04x}'.format(n)\<close> for \<open>n\<close> below \<open>0x10000\<close>: four lower-case hexadecimal digits.\<close>

definition hex_digit :: "nat \<Rightarrow> nat" where
  "hex_digit d = (if d < 10 then 48 + d else 87 + d)"

definition hex4 :: "nat \<Rightarrow> pystr" where
  "hex4 n = [hex_digit (n div 4096 mod 16), hex_digit (n div 256 mod 16),
             hex_digit (n div 16 mod 16), hex_digit (n mod 16)]"

text \<open>
  The replacement of one character that \<open>ESCAPE_ASCII\<close> matches: the short escapes of
  \<open>ESCAPE_DCT\<close>, \<open>\uXXXX\<close> below \<open>0x10000\<close>, and a surrogate pair above, where
  \<open>0xd800 | ((n >> 10) & 0x3ff)\<close> and \<open>0xdc00 | (n & 0x3ff)\<close> are written with \<open>+\<close>,
  \<open>div\<close> and \<open>mod\<close>.
\<close>

definition replace :: "nat \<Rightarrow> pystr" where
  "replace c =
     (if c = backslash then [backslash, backslash]
      else if c = quote then [backslash, quote]
      else if c = 8 then (backslash # str ''b'')
      else if c = 12 then (backslash # str ''f'')
      else if c = 10 then (backslash # str ''n'')
      else if c = 13 then (backslash # str ''r'')
      else if c = 9 then (backslash # str ''t'')
      else if c < 65536 then (backslash # str ''u'') @ hex4 c
      else (let n = c - 65536;
                s1 = 55296 + (n div 1024) mod 1024;
                s2 = 56320 + n mod 1024
            in (backslash # str ''u'') @ hex4 s1 @ (backslash # str ''u'') @ hex4 s2))"

text \<open>\<open>ESCAPE_ASCII\<close> is \<open>([\\"]|[^\ -~])\<close>: every other character is kept.\<close>

definition escape_ascii :: "nat \<Rightarrow> pystr" where
  "escape_ascii c =
     (if c = backslash \<or> c = quote \<or> \<not> (32 \<le> c \<and> c \<le> 126) then replace c else [c])"

definition encode_basestring_ascii :: "pystr \<Rightarrow> pystr" where
  "encode_basestring_ascii s = [quote] @ concat (map escape_ascii s) @ [quote]"

text \<open>\<open>'\n' + _indent * _current_indent_level\<close> with an indent of four spaces.\<close>

definition newline_indent :: "nat \<Rightarrow> pystr" where
  "newline_indent level = newline # concat (replicate level (str ''    ''))"

text \<open>
  The concatenated chunks of \<open>_iterencode_dict\<close> and \<open>_iterencode_list\<close>: the items are
  separated by \<open>','\<close> and the new line with its indent, a key from its value by \<open>': '\<close>.
\<close>

definition iterencode_dict :: "pyrecord \<Rightarrow> nat \<Rightarrow> pystr" where
  "iterencode_dict dct level =
     (if dct = [] then str ''{}''
      else str ''{'' @ newline_indent (level + 1)
           @ join (str '','' @ newline_indent (level + 1))
               (map (\<lambda>(key, val).
                      encode_basestring_ascii key @ str '': '' @ encode_basestring_ascii val) dct)
           @ newline_indent level @ str ''}'')"

definition iterencode_list :: "pyrecord list \<Rightarrow> nat \<Rightarrow> pystr" where
  "iterencode_list lst level =
     (if lst = [] then str ''[]''
      else str ''['' @ newline_indent (level + 1)
           @ join (str '','' @ newline_indent (level + 1))
               (map (\<lambda>dct. iterencode_dict dct (level + 1)) lst)
           @ newline_indent level @ str '']'')"

definition save_to_json :: "pyrecord list \<Rightarrow> pystr" where
  "save_to_json data = iterencode_list data 0"

section \<open>Reading the file back\<close>

text \<open>
  The program never reads its output; the reader is \<open>json.load\<close> of the same library, after
  \<open>py_scanstring\<close>, \<open>JSONObject\<close> and \<open>JSONArray\<close> of \<open>json/decoder.py\<close> and \<open>_scan_once\<close> of
  \<open>json/scanner.py\<close>.  A position in the text is the text that remains.  \<open>None\<close> stands for
  a \<open>JSONDecodeError\<close>, and also for what is left out: numbers, \<open>NaN\<close> and the infinities, and
  the spellings of a \<open>\uXXXX\<close> escape other than four hexadecimal digits that \<open>int(esc, 16)\<close>
  would accept.  None of these occurs in a text written by \<open>save_to_json\<close>.
\<close>

datatype json = JString pystr | JObject "(pystr, json) pydict" | JArray "json list"
  | JNull | JBool bool

text \<open>\<open>WHITESPACE.match(s, end).end()\<close>, with \<open>WHITESPACE = [ \t\n\r]*\<close>.\<close>

definition skip_whitespace :: "pystr \<Rightarrow> pystr" where
  "skip_whitespace s = dropWhile (\<lambda>c. c = 32 \<or> c = 9 \<or> c = 10 \<or> c = 13) s"

text \<open>\<open>_decode_uXXXX\<close>: the value of the four hexadecimal digits at the head of the text.\<close>

definition hex_value :: "nat \<Rightarrow> nat option" where
  "hex_value c =
     (if 48 \<le> c \<and> c \<le> 57 then Some (c - 48)
      else if 97 \<le> c \<and> c \<le> 102 then Some (c - 87)
      else if 65 \<le> c \<and> c \<le> 70 then Some (c - 55)
      else None)"

definition decode_uXXXX :: "pystr \<Rightarrow> nat option" where
  "decode_uXXXX s =
     (case take 4 s of
        [a, b, c, d] \<Rightarrow>
          (case (hex_value a, hex_value b, hex_value c, hex_value d) of
             (Some x3, Some x2, Some x1, Some x0) \<Rightarrow> Some (((x3 * 16 + x2) * 16 + x1) * 16 + x0)
           | _ \<Rightarrow> None)
      | _ \<Rightarrow> None)"

text \<open>The table \<open>BACKSLASH\<close> of the one-letter escapes.\<close>

definition backslash_table :: "nat \<Rightarrow> nat option" where
  "backslash_table esc =
     (if esc = quote then Some quote
      else if esc = backslash then Some backslash
      else if [esc] = str ''/'' then Some 47
      else if [esc] = str ''b'' then Some 8
      else if [esc] = str ''f'' then Some 12
      else if [esc] = str ''n'' then Some 10
      else if [esc] = str ''r'' then Some 13
      else if [esc] = str ''t'' then Some 9
      else None)"

text \<open>
  \<open>py_scanstring\<close> in strict mode, entered after the opening quote; \<open>chunks\<close> is the content
  read so far.  A \<open>\uXXXX\<close> escape in the range of the high surrogates that is followed by a
  \<open>\uXXXX\<close> escape in the range of the low surrogates is read as one character.
\<close>

function scanstring :: "pystr \<Rightarrow> pystr \<Rightarrow> (pystr \<times> pystr) option" where
  "scanstring chunks [] = None"
| "scanstring chunks (c # cs) =
     (if c = quote then Some (chunks, cs)
      else if c = backslash then
        (case cs of
           [] \<Rightarrow> None
         | esc # r \<Rightarrow>
             if [esc] \<noteq> str ''u'' then
               (case backslash_table esc of
                  None \<Rightarrow> None
                | Some ch \<Rightarrow> scanstring (chunks @ [ch]) r)
             else
               (case decode_uXXXX r of
                  None \<Rightarrow> None
                | Some uni \<Rightarrow>
                    if 55296 \<le> uni \<and> uni \<le> 56319 \<and> take 2 (drop 4 r) = (backslash # str ''u'') then
                      (case decode_uXXXX (drop 6 r) of
                         None \<Rightarrow> None
                       | Some uni2 \<Rightarrow>
                           if 56320 \<le> uni2 \<and> uni2 \<le> 57343
                           then scanstring
                                  (chunks @ [65536 + ((uni - 55296) * 1024 + (uni2 - 56320))])
                                  (drop 10 r)
                           else scanstring (chunks @ [uni]) (drop 4 r))
                    else scanstring (chunks @ [uni]) (drop 4 r)))
      else if c < 32 then None
      else scanstring (chunks @ [c]) cs)"
  by pat_completeness auto
termination
  by (relation "measure (\<lambda>(chunks, s). length s)") auto

text \<open>\<open>dict(pairs)\<close>, the pairs written in order into the dictionary.\<close>

fun dict_of_pairs :: "('k, 'v) pydict \<Rightarrow> ('k \<times> 'v) list \<Rightarrow> ('k, 'v) pydict" where
  "dict_of_pairs d [] = d"
| "dict_of_pairs d ((k, v) # pairs) = dict_of_pairs (dict_set d k v) pairs"

text \<open>
  \<open>_scan_once\<close> and the loops of \<open>JSONObject\<close> and \<open>JSONArray\<close> call each other; they are
  one function with the task as its first argument: \<open>Value\<close> reads one value, \<open>ObjectLoop\<close>
  is the \<open>while\<close> loop of \<open>JSONObject\<close>, entered after the opening quote of a key with the
  pairs read so far, and \<open>ArrayLoop\<close> the loop of \<open>JSONArray\<close> with the values read so far.
\<close>

datatype task = Value | ObjectLoop "(pystr \<times> json) list" | ArrayLoop "json list"

partial_function (option) scan :: "task \<Rightarrow> pystr \<Rightarrow> (json \<times> pystr) option" where
  "scan t s =
     (case t of
        Value \<Rightarrow>
          (case s of
             [] \<Rightarrow> None
           | c # r \<Rightarrow>
               if c = quote then
                 (case scanstring [] r of
                    None \<Rightarrow> None
                  | Some (content, r') \<Rightarrow> Some (JString content, r'))
               else if [c] = str ''{'' then
                 (case skip_whitespace r of
                    [] \<Rightarrow> None
                  | c' # r' \<Rightarrow>
                      if [c'] = str ''}'' then Some (JObject [], r')
                      else if c' = quote then scan (ObjectLoop []) r'
                      else None)
               else if [c] = str ''['' then
                 (case skip_whitespace r of
                    [] \<Rightarrow> None
                  | c' # r' \<Rightarrow>
                      if [c'] = str '']'' then Some (JArray [], r')
                      else scan (ArrayLoop []) (c' # r'))
               else if take 4 s = str ''null'' then Some (JNull, drop 4 s)
               else if take 4 s = str ''true'' then Some (JBool True, drop 4 s)
               else if take 5 s = str ''false'' then Some (JBool False, drop 5 s)
               else None)
      | ObjectLoop pairs \<Rightarrow>
          (case scanstring [] s of
             None \<Rightarrow> None
           | Some (key, r) \<Rightarrow>
               (case skip_whitespace r of
                  [] \<Rightarrow> None
                | c # r1 \<Rightarrow>
                    if c \<noteq> colon then None
                    else
                      Option.bind (scan Value (skip_whitespace r1))
                        (\<lambda>(val, r2).
                           (case skip_whitespace r2 of
                              [] \<Rightarrow> None
                            | c' # r3 \<Rightarrow>
                                if [c'] = str ''}''
                                then Some (JObject (dict_of_pairs [] (pairs @ [(key, val)])), r3)
                                else if [c'] \<noteq> str '','' then None
                                else
                                  (case skip_whitespace r3 of
                                     [] \<Rightarrow> None
                                   | c'' # r4 \<Rightarrow>
                                       if c'' \<noteq> quote then None
                                       else scan (ObjectLoop (pairs @ [(key, val)])) r4)))))
      | ArrayLoop vals \<Rightarrow>
          Option.bind (scan Value s)
            (\<lambda>(val, r).
               (case skip_whitespace r of
                  [] \<Rightarrow> None
                | c # r1 \<Rightarrow>
                    if [c] = str '']'' then Some (JArray (vals @ [val]), r1)
                    else if [c] \<noteq> str '','' then None
                    else scan (ArrayLoop (vals @ [val])) (skip_whitespace r1))))"

text \<open>
  \<open>JSONDecoder.decode\<close>: one value between white space, and nothing after it.
\<close>

definition json_loads :: "pystr \<Rightarrow> json option" where
  "json_loads s =
     (case scan Value (skip_whitespace s) of
        None \<Rightarrow> None
      | Some (obj, r) \<Rightarrow> if skip_whitespace r = [] then Some obj else None)"


text \<open>
  The strings the round trip is stated for: code points of a Python string (below
  \<open>0x110000\<close>) in which no high surrogate is directly followed by a low surrogate.
\<close>

definition is_high_surrogate :: "nat \<Rightarrow> bool" where
  "is_high_surrogate c = (55296 \<le> c \<and> c \<le> 56319)"

definition is_low_surrogate :: "nat \<Rightarrow> bool" where
  "is_low_surrogate c = (56320 \<le> c \<and> c \<le> 57343)"

fun surrogate_pair_free :: "pystr \<Rightarrow> bool" where
  "surrogate_pair_free (a # b # s) =
     (\<not> (is_high_surrogate a \<and> is_low_surrogate b) \<and> surrogate_pair_free (b # s))"
| "surrogate_pair_free s = True"

definition json_safe :: "pystr \<Rightarrow> bool" where
  "json_safe s = (list_all (\<lambda>c. c < 1114112) s \<and> surrogate_pair_free s)"

text \<open>
  What may follow the escape of a high surrogate without being read together with it:
  anything but a \<open>\uXXXX\<close> escape of a low surrogate.
\<close>

definition no_low_escape :: "pystr \<Rightarrow> bool" where
  "no_low_escape s =
     (take 2 s = [backslash, 117] \<longrightarrow>
        (case decode_uXXXX (drop 2 s) of None \<Rightarrow> False | Some u \<Rightarrow> \<not> is_low_surrogate u))"


text \<open>
  The order a ranking is checked against: \<open>a\<close> goes before \<open>b\<close> when its score is higher,
  or the scores are equal and its index is smaller.
\<close>

definition ranked_before :: "(nat \<times> 's::linorder) \<Rightarrow> (nat \<times> 's) \<Rightarrow> bool" where
  "ranked_before a b = (snd b < snd a \<or> (snd a = snd b \<and> fst a < fst b))"

section \<open>Stand-ins for the libraries, for concrete runs\<close>

text \<open>
  An encoder that embeds a string as itself, with a score of 1 for equal vectors and 0
  otherwise; a decoder set in which every PDF fails to open and every HTML file holds the
  text \<open>Name: Dell\<close>, the extension being what follows the first dot.
\<close>

definition stub_encode :: "pystr \<Rightarrow> pystr" where
  "stub_encode s = s"

definition stub_similarity :: "pystr \<Rightarrow> pystr \<Rightarrow> int" where
  "stub_similarity a b = (if a = b then 1 else 0)"


definition stub_decoders :: decoders where
  "stub_decoders =
     \<lparr>splitext = (\<lambda>p. (takeWhile (\<lambda>c. c \<noteq> 46) p, dropWhile (\<lambda>c. c \<noteq> 46) p)),
      lower = (\<lambda>s. s),
      pdf_pages = (\<lambda>p. None),
      html_text = (\<lambda>p. Some (str ''Name: Dell''))\<rparr>"

section \<open>Properties of the dictionaries\<close>

lemma dict_get_set: "dict_get (dict_set d k v) k' = (if k' = k then Some v else dict_get d k')"
  by (induction d) auto

lemma dict_get_None_iff: "dict_get d k = None \<longleftrightarrow> k \<notin> set (dict_keys d)"
  by (induction d k rule: dict_get.induct) (simp_all add: dict_keys_def)

lemma dict_contains_iff: "dict_contains d k \<longleftrightarrow> dict_get d k \<noteq> None"
  by (simp add: dict_contains_def dict_get_None_iff)

lemma dict_keys_set:
  "dict_keys (dict_set d k v) = (if k \<in> set (dict_keys d) then dict_keys d else dict_keys d @ [k])"
  by (induction d k v rule: dict_set.induct) (simp_all add: dict_keys_def)

lemma dict_set_new: "k \<notin> set (dict_keys d) \<Longrightarrow> dict_set d k v = d @ [(k, v)]"
  by (induction d) (auto simp: dict_keys_def)

lemma distinct_dict_set: "distinct (dict_keys d) \<Longrightarrow> distinct (dict_keys (dict_set d k v))"
  by (simp add: dict_keys_set)

lemma length_dict_set:
  "length (dict_set d k v) = (if k \<in> set (dict_keys d) then length d else Suc (length d))"
  by (induction d k v rule: dict_set.induct) (simp_all add: dict_keys_def)



subsection \<open>The pattern on one line\<close>
lemma lazy_group_no_colon: "colon \<notin> set cs \<Longrightarrow> lazy_group acc cs = None"
  by (induction cs arbitrary: acc) auto

lemma lazy_group_colon:
  "newline \<notin> set cs \<Longrightarrow> colon \<in> set cs \<Longrightarrow>
   lazy_group acc cs = Some (acc @ takeWhile (\<lambda>x. x \<noteq> colon) cs, tl (dropWhile (\<lambda>x. x \<noteq> colon) cs))"
  by (induction cs arbitrary: acc) auto

lemma match_at_no_colon: "colon \<notin> set (tl s) \<Longrightarrow> match_at s = None"
  by (cases s) (auto simp: match_at_def lazy_group_no_colon)

lemma re_search_no_colon: "colon \<notin> set (tl s) \<Longrightarrow> re_search s = None"
proof (induction s)
  case Nil
  then show ?case by (simp add: match_at_def)
next
  case (Cons c cs)
  have "colon \<notin> set (tl cs)" using Cons.prems by (cases cs) auto
  then have "re_search cs = None" by (rule Cons.IH)
  then show ?case using Cons.prems by (simp add: match_at_no_colon)
qed

lemma mem_tlD: "x \<in> set (tl xs) \<Longrightarrow> x \<in> set xs"
  by (cases xs) auto

lemma takeWhile_all: "x \<notin> set xs \<Longrightarrow> takeWhile (\<lambda>y. y \<noteq> x) xs = xs"
  by (induction xs) auto

lemma re_search_line:
  assumes "newline \<notin> set (c # cs)" and "colon \<in> set cs"
  shows "re_search (c # cs) =
    Some (c # takeWhile (\<lambda>x. x \<noteq> colon) cs, dropWhile is_space (tl (dropWhile (\<lambda>x. x \<noteq> colon) cs)))"
proof -
  have nl: "newline \<notin> set cs" and c: "c \<noteq> newline" using assms(1) by auto
  have "newline \<notin> set (dropWhile is_space (tl (dropWhile (\<lambda>x. x \<noteq> colon) cs)))"
  proof
    assume "newline \<in> set (dropWhile is_space (tl (dropWhile (\<lambda>x. x \<noteq> colon) cs)))"
    then have "newline \<in> set (tl (dropWhile (\<lambda>x. x \<noteq> colon) cs))" by (rule set_dropWhileD)
    then have "newline \<in> set (dropWhile (\<lambda>x. x \<noteq> colon) cs)" by (rule mem_tlD)
    then show False using nl set_dropWhileD by fastforce
  qed
  then show ?thesis
    using c by (simp add: match_at_def lazy_group_colon[OF nl assms(2)] takeWhile_all)
qed


lemma splitlines_from_no_break:
  "l \<in> set (splitlines_from cur t) \<Longrightarrow> \<forall>c\<in>set cur. \<not> is_linebreak c \<Longrightarrow> c \<in> set l \<Longrightarrow> \<not> is_linebreak c"
  by (induction cur t rule: splitlines_from.induct) (auto split: if_splits)

lemma splitlines_no_break: "l \<in> set (splitlines text) \<Longrightarrow> c \<in> set l \<Longrightarrow> \<not> is_linebreak c"
  unfolding splitlines_def by (rule splitlines_from_no_break) auto

lemma splitlines_no_newline: "l \<in> set (splitlines t) \<Longrightarrow> newline \<notin> set l"
  using splitlines_no_break[of l t newline] by (auto simp: is_linebreak_def newline_def)


lemma strip_dropWhile: "strip (dropWhile is_space s) = strip s"
  by (simp add: strip_def)

lemma strip_all_space:
  assumes "\<forall>c\<in>set s. is_space c"
  shows "strip s = []"
  using assms by (auto simp: strip_def dest: set_dropWhileD)

lemma key_value_line:
  assumes "newline \<notin> set (c # cs)" and "colon \<in> set cs"
  shows "key_value (c # cs) =
    Some (strip (c # takeWhile (\<lambda>x. x \<noteq> colon) cs), strip (tl (dropWhile (\<lambda>x. x \<noteq> colon) cs)))"
  unfolding key_value_def re_search_line[OF assms] by (simp add: strip_dropWhile)

lemma key_value_no_colon: "colon \<notin> set (tl s) \<Longrightarrow> key_value s = None"
  by (simp add: key_value_def re_search_no_colon)

lemma dict_get_first_pass:
  "dict_get (first_pass r lines) k =
     (case filter (\<lambda>p. fst p = k) (List.map_filter key_value lines) of
        [] \<Rightarrow> dict_get r k
      | p # ps \<Rightarrow> Some (snd (last (p # ps))))"
proof (induction lines arbitrary: r)
  case Nil
  then show ?case by simp
next
  case (Cons line lines)
  show ?case
  proof (cases "key_value line")
    case None
    then show ?thesis by (simp add: Cons.IH)
  next
    case (Some kv)
    obtain key val where kv: "kv = (key, val)" by (cases kv)
    show ?thesis
      by (simp add: Some kv Cons.IH dict_get_set split: list.splits)
  qed
qed

lemma dict_get_second_pass:
  "dict_get (second_pass r lines) k =
     (case dict_get r k of
        Some v \<Rightarrow> Some v
      | None \<Rightarrow> if k \<in> set lines \<and> k \<noteq> [] then Some [] else None)"
proof (induction lines arbitrary: r)
  case Nil
  then show ?case by (simp split: option.splits)
next
  case (Cons line lines)
  show ?case
    by (auto simp: Cons.IH dict_contains_iff dict_get_set split: option.splits)
qed

lemma second_pass_appends:
  "\<exists>added. second_pass r lines = r @ map (\<lambda>l. (l, [])) added
      \<and> set added = {l \<in> set lines. l \<noteq> [] \<and> \<not> dict_contains r l}
      \<and> distinct added"
proof (induction lines arbitrary: r)
  case Nil
  then show ?case by simp
next
  case (Cons line lines)
  show ?case
  proof (cases "line \<noteq> [] \<and> \<not> dict_contains r line")
    case True
    let ?r = "r @ [(line, [])]"
    from True have set: "dict_set r line [] = ?r"
      by (simp add: dict_set_new dict_contains_def)
    obtain added where a: "second_pass ?r lines = ?r @ map (\<lambda>l. (l, [])) added"
      "set added = {l \<in> set lines. l \<noteq> [] \<and> \<not> dict_contains ?r l}" "distinct added"
      using Cons.IH[of ?r] by blast
    have "second_pass r (line # lines) = r @ map (\<lambda>l. (l, [])) (line # added)"
      using True set a(1) by simp
    moreover have "set (line # added) = {l \<in> set (line # lines). l \<noteq> [] \<and> \<not> dict_contains r l}"
      using True a(2) by (auto simp: dict_contains_def dict_keys_def)
    moreover have "distinct (line # added)"
      using a(2,3) by (auto simp: dict_contains_def dict_keys_def)
    ultimately show ?thesis by blast
  next
    case False
    obtain added where a: "second_pass r lines = r @ map (\<lambda>l. (l, [])) added"
      "set added = {l \<in> set lines. l \<noteq> [] \<and> \<not> dict_contains r l}" "distinct added"
      using Cons.IH[of r] by blast
    have "second_pass r (line # lines) = r @ map (\<lambda>l. (l, [])) added"
      using False a(1) by auto
    moreover have "set added = {l \<in> set (line # lines). l \<noteq> [] \<and> \<not> dict_contains r l}"
      using False a(2) by auto
    ultimately show ?thesis using a(3) by blast
  qed
qed

lemma key_value_in_map_filter:
  "l \<in> set lines \<Longrightarrow> key_value l = Some kv \<Longrightarrow> kv \<in> set (List.map_filter key_value lines)"
  by (force simp: List.map_filter_def)

lemma dict_get_extract_key:
  assumes "l \<in> set (splitlines t)" and "key_value l = Some (key, val)"
  shows "dict_get (extract_information t) key =
     Some (snd (last (filter (\<lambda>p. fst p = key) (List.map_filter key_value (splitlines t)))))"
proof -
  have "(key, val) \<in> set (filter (\<lambda>p. fst p = key) (List.map_filter key_value (splitlines t)))"
    using key_value_in_map_filter[OF assms] by simp
  then obtain p ps where "filter (\<lambda>p. fst p = key) (List.map_filter key_value (splitlines t)) = p # ps"
    by (cases "filter (\<lambda>p. fst p = key) (List.map_filter key_value (splitlines t))") auto
  then show ?thesis
    by (simp add: extract_information_def Let_def dict_get_second_pass dict_get_first_pass)
qed

section \<open>Claims about the extractor\<close>

lemmas string_eval = str_def colon_def newline_def is_space_def is_linebreak_def strip_def
  splitlines_def match_at_def key_value_def dict_contains_def dict_keys_def
  extract_information_def

text \<open>
  Claim C1.  On text made of well-formed \<open>key: value\<close> lines with distinct keys the
  claim expects one entry per line.  The extractor returns more: on
  \<open>"Name: Dell\nPrice: 500"\<close> the first loop writes \<open>Name\<close> and \<open>Price\<close>, and the second
  loop, whose test is whether the whole line is a key, then stores each of the two lines
  as a key of its own with the empty value.  The record has four entries.
\<close>
theorem extract_name_price:
  "extract_information (str ''Name: Dell\<newline>Price: 500'') =
     [(str ''Name'', str ''Dell''), (str ''Price'', str ''500''),
      (str ''Name: Dell'', []), (str ''Price: 500'', [])]"
  by (simp add: string_eval)

text \<open>
  Claim C3, as stated, at the text \<open>":x"\<close>: its only line contains a colon, yet nothing is
  split off; the record holds the whole line as a key and no entry for the empty key.
\<close>
theorem leading_colon_counterexample:
  "splitlines (str '':x'') = [str '':x''] \<and> colon \<in> set (str '':x'')
   \<and> extract_information (str '':x'') = [(str '':x'', [])]"
  by (simp add: string_eval)

text \<open>
  Claim C3, amended.  For every line of the text with a colon after its first character,
  the line is split at the first such colon: the key is the stripped text before it, the
  value the stripped text after it, and that is what the first loop writes.  The value the
  returned record holds for this key is the value of the last line of the text that
  produces the key.  (A colon in first position does not split the line.)
\<close>
theorem first_colon_last_wins:
  assumes "c # cs \<in> set (splitlines text)" and "colon \<in> set cs"
  shows "key_value (c # cs) =
           Some (strip (c # takeWhile (\<lambda>x. x \<noteq> colon) cs),
                 strip (tl (dropWhile (\<lambda>x. x \<noteq> colon) cs)))
       \<and> dict_get (extract_information text) (strip (c # takeWhile (\<lambda>x. x \<noteq> colon) cs)) =
           Some (snd (last (filter (\<lambda>p. fst p = strip (c # takeWhile (\<lambda>x. x \<noteq> colon) cs))
                             (List.map_filter key_value (splitlines text)))))"
proof -
  have kv: "key_value (c # cs) =
           Some (strip (c # takeWhile (\<lambda>x. x \<noteq> colon) cs),
                 strip (tl (dropWhile (\<lambda>x. x \<noteq> colon) cs)))"
    using splitlines_no_newline[OF assms(1)] assms(2) by (rule key_value_line)
  show ?thesis
    using kv dict_get_extract_key[OF assms(1) kv] by simp
qed

text \<open>The text \<open>"a: 1\na: 2"\<close>: both lines give the key \<open>a\<close>, and the record holds \<open>2\<close>.\<close>
theorem first_colon_last_wins_witness:
  "str ''a: 1'' \<in> set (splitlines (str ''a: 1\<newline>a: 2''))
   \<and> colon \<in> set (str '': 1'')
   \<and> key_value (str ''a: 1'') = Some (str ''a'', str ''1'')
   \<and> dict_get (extract_information (str ''a: 1\<newline>a: 2'')) (str ''a'') = Some (str ''2'')"
  using first_colon_last_wins[of 97 "str '': 1''" "str ''a: 1\<newline>a: 2''"]
  by (simp add: string_eval)

text \<open>
  Claim C5, as stated, at the text of two spaces: the line is empty once stripped, the
  first loop writes nothing, and the second loop inserts the line as a key.
\<close>
theorem whitespace_line_counterexample:
  "strip (str ''  '') = [] \<and> first_pass [] (splitlines (str ''  '')) = []
   \<and> extract_information (str ''  '') = [(str ''  '', [])]"
  by (simp add: string_eval)

lemma strip_not_all_space: "strip g \<noteq> [] \<Longrightarrow> \<not> list_all is_space (strip g)"
proof -
  assume ne: "strip g \<noteq> []"
  let ?d = "dropWhile is_space (rev (dropWhile is_space g))"
  have d: "?d \<noteq> []" using ne by (simp add: strip_def)
  then have "\<not> is_space (hd ?d)" by (rule hd_dropWhile)
  moreover have "hd ?d \<in> set (strip g)" using d by (simp add: strip_def)
  ultimately show ?thesis by (auto simp: list_all_iff)
qed

lemma first_pass_keys:
  "k \<in> set (dict_keys (first_pass r lines)) \<Longrightarrow> k \<in> set (dict_keys r) \<or> (\<exists>g. k = strip g)"
proof (induction lines arbitrary: r)
  case Nil
  then show ?case by simp
next
  case (Cons line lines)
  show ?case
  proof (cases "key_value line")
    case None
    then show ?thesis using Cons by simp
  next
    case (Some kv)
    obtain key val where kv: "kv = (key, val)" by (cases kv)
    have "\<exists>g. key = strip g"
      using Some kv by (auto simp: key_value_def split: option.splits)
    moreover have "k \<in> set (dict_keys (dict_set r key val)) \<or> (\<exists>g. k = strip g)"
      using Cons.IH[of "dict_set r key val"] Cons.prems Some kv by simp
    ultimately show ?thesis by (auto simp: dict_keys_set split: if_splits)
  qed
qed

lemma whitespace_line_not_key:
  assumes "l \<noteq> []" and "list_all is_space l"
  shows "\<not> dict_contains (first_pass [] lines) l"
proof
  assume "dict_contains (first_pass [] lines) l"
  then have "l \<in> set (dict_keys (first_pass [] lines))" by (simp add: dict_contains_def)
  then have "\<exists>g. l = strip g" using first_pass_keys[of l "[]" lines] by (simp add: dict_keys_def)
  then obtain g where "l = strip g" by blast
  then show False using assms strip_not_all_space[of g] by simp
qed

text \<open>
  Claim C5, amended.  The second loop leaves the entries of the first loop as they are and
  appends lines of the text as keys with the empty value; it appends a line only if the
  line is not the empty string and is not a key of the record the first loop built.  The
  test is on the line as it stands: every line that is not empty and consists of white
  space only is appended.
\<close>
theorem second_pass_inserts_nonempty:
  "\<exists>added. extract_information text =
              first_pass [] (splitlines text) @ map (\<lambda>l. (l, [])) added
     \<and> set added \<subseteq> {l \<in> set (splitlines text).
                      l \<noteq> [] \<and> \<not> dict_contains (first_pass [] (splitlines text)) l}
     \<and> {l \<in> set (splitlines text). l \<noteq> [] \<and> list_all is_space l} \<subseteq> set added"
proof -
  obtain added where a:
    "second_pass (first_pass [] (splitlines text)) (splitlines text) =
       first_pass [] (splitlines text) @ map (\<lambda>l. (l, [])) added"
    "set added = {l \<in> set (splitlines text).
                      l \<noteq> [] \<and> \<not> dict_contains (first_pass [] (splitlines text)) l}"
    using second_pass_appends by blast
  have "{l \<in> set (splitlines text). l \<noteq> [] \<and> list_all is_space l} \<subseteq> set added"
    unfolding a(2) using whitespace_line_not_key by blast
  then show ?thesis
    using a by (auto simp: extract_information_def Let_def)
qed

text \<open>A text with a line of two spaces and a line without a colon.\<close>
theorem second_pass_inserts_nonempty_witness:
  "first_pass [] (splitlines (str ''  \<newline>b'')) = []
   \<and> extract_information (str ''  \<newline>b'') = [(str ''  '', []), (str ''b'', [])]"
  using second_pass_inserts_nonempty[of "str ''  \<newline>b''"]
  by (simp add: string_eval)

text \<open>
  Claim C10.  A line whose first colon has only white space before it, at least one
  character of it, gives the empty string as its key, and the returned record contains
  the empty key.  \<open>" : value"\<close> is such a line.
\<close>
theorem empty_key:
  assumes "ws @ colon # rest \<in> set (splitlines text)" and "ws \<noteq> []"
    and "\<forall>c\<in>set ws. is_space c"
  shows "key_value (ws @ colon # rest) = Some ([], strip rest)
       \<and> dict_contains (extract_information text) []"
proof -
  obtain w ws' where ws: "ws = w # ws'" using assms(2) by (cases ws) auto
  have nc: "\<And>x. x \<in> set ws' \<Longrightarrow> x \<noteq> colon"
    using assms(3) ws by (auto simp: is_space_def colon_def)
  have line: "w # (ws' @ colon # rest) \<in> set (splitlines text)" using assms(1) ws by simp
  have tw: "takeWhile (\<lambda>x. x \<noteq> colon) (ws' @ colon # rest) = ws'"
    using nc by (simp add: takeWhile_append2)
  have dw: "dropWhile (\<lambda>x. x \<noteq> colon) (ws' @ colon # rest) = colon # rest"
    using nc by (simp add: dropWhile_append2)
  have "key_value (w # (ws' @ colon # rest)) =
      Some (strip (w # takeWhile (\<lambda>x. x \<noteq> colon) (ws' @ colon # rest)),
            strip (tl (dropWhile (\<lambda>x. x \<noteq> colon) (ws' @ colon # rest))))"
    using splitlines_no_newline[OF line] by (rule key_value_line) simp
  then have kv: "key_value (w # (ws' @ colon # rest)) = Some ([], strip rest)"
    using assms(3) ws by (simp add: tw dw strip_all_space)
  have "dict_get (extract_information text) [] \<noteq> None"
    using dict_get_extract_key[OF line kv] by simp
  then show ?thesis using kv ws by (simp add: dict_contains_iff)
qed

text \<open>The text \<open>" : value"\<close>.\<close>
theorem empty_key_witness:
  "str '' '' @ colon # str '' value'' \<in> set (splitlines (str '' : value''))
   \<and> str '' '' = [32] \<and> is_space 32
   \<and> extract_information (str '' : value'') = [([], str ''value''), (str '' : value'', [])]
   \<and> dict_contains (extract_information (str '' : value'')) []"
  using empty_key[of "str '' ''" "str '' value''" "str '' : value''"]
  by (simp add: string_eval)

section \<open>Properties of the index\<close>

lemma similarity_loop_map:
  "distinct (dict_keys embs) \<Longrightarrow> set (dict_keys acc) \<inter> set (dict_keys embs) = {} \<Longrightarrow>
   similarity_loop sim q acc embs = acc @ map (\<lambda>(i, e). (i, sim q e)) embs"
proof (induction sim q acc embs rule: similarity_loop.induct)
  case (1 sim q acc)
  then show ?case by simp
next
  case (2 sim q acc index e rest)
  have new: "index \<notin> set (dict_keys acc)" using "2.prems"(2) by (auto simp: dict_keys_def)
  have ds: "dict_set acc index (sim q e) = acc @ [(index, sim q e)]"
    by (rule dict_set_new[OF new])
  have "set (dict_keys (acc @ [(index, sim q e)])) \<inter> set (dict_keys rest) = {}"
    using "2.prems" by (auto simp: dict_keys_def)
  moreover have "distinct (dict_keys rest)" using "2.prems"(1) by (simp add: dict_keys_def)
  ultimately show ?case
    using "2.IH" by (simp add: ds)
qed

lemma insort_ranked:
  fixes x :: "nat \<times> 's::linorder"
  assumes "sorted_wrt (\<lambda>a b. ranked_before b a) ys" and "\<forall>y\<in>set ys. fst y < fst x"
  shows "sorted_wrt (\<lambda>a b. ranked_before b a) (insort_key snd x ys)"
  using assms
proof (induction ys)
  case Nil
  then show ?case by simp
next
  case (Cons y ys)
  show ?case
  proof (cases "snd x \<le> snd y")
    case True
    have "ranked_before z x" if "z \<in> set (y # ys)" for z
    proof -
      have "snd y \<le> snd z" using that Cons.prems(1) by (auto simp: ranked_before_def)
      then have "snd x \<le> snd z" using True by simp
      moreover have "fst z < fst x" using that Cons.prems(2) by auto
      ultimately show ?thesis by (auto simp: ranked_before_def)
    qed
    then show ?thesis using True Cons.prems(1) by simp
  next
    case False
    have "sorted_wrt (\<lambda>a b. ranked_before b a) (insort_key snd x ys)"
      using Cons by simp
    moreover have "ranked_before w y" if "w \<in> set (insort_key snd x ys)" for w
      using that False Cons.prems(1) by (auto simp: set_insort_key ranked_before_def)
    ultimately show ?thesis using False by simp
  qed
qed

lemma sort_key_ranked:
  fixes ws :: "(nat \<times> 's::linorder) list"
  assumes "sorted_wrt (\<lambda>a b. fst b < fst a) ws"
  shows "sorted_wrt (\<lambda>a b. ranked_before b a) (sort_key snd ws)"
  using assms
proof (induction ws)
  case Nil
  then show ?case by simp
next
  case (Cons w ws)
  have "sorted_wrt (\<lambda>a b. ranked_before b a) (sort_key snd ws)" using Cons by simp
  moreover have "\<forall>y\<in>set (sort_key snd ws). fst y < fst w" using Cons.prems by simp
  ultimately show ?case by (simp add: insort_ranked)
qed

lemma sorted_reverse_ranked:
  fixes items :: "(nat \<times> 's::linorder) list"
  assumes "sorted_wrt (\<lambda>a b. fst a < fst b) items"
  shows "sorted_wrt ranked_before (sorted_reverse items)"
  using assms by (simp add: sorted_reverse_def sorted_wrt_rev sort_key_ranked)

lemma mset_sorted_reverse: "mset (sorted_reverse items) = mset items"
  by (simp add: sorted_reverse_def)

lemma collect_all:
  "\<forall>p\<in>set xs. fst p \<in> set (dict_keys docs) \<Longrightarrow>
   \<exists>rs. collect docs xs = Inr rs \<and> list_all2 (\<lambda>p r. dict_get docs (fst p) = Some r) xs rs"
proof (induction xs)
  case Nil
  then show ?case by simp
next
  case (Cons p xs)
  obtain index score where p: "p = (index, score)" by (cases p)
  obtain rs where rs: "collect docs xs = Inr rs"
      "list_all2 (\<lambda>p r. dict_get docs (fst p) = Some r) xs rs"
    using Cons by auto
  have "dict_get docs index \<noteq> None" using Cons.prems p by (simp add: dict_get_None_iff)
  then obtain content where "dict_get docs index = Some content" by auto
  then show ?case using rs p by simp
qed

lemma stored_similarities:
  assumes "stored m"
  shows "similarity_loop sim q [] (document_embeddings m) =
         map (\<lambda>(i, e). (i, sim q e)) (document_embeddings m)"
proof -
  have "distinct (dict_keys (document_embeddings m))" using assms by (simp add: stored_def)
  then show ?thesis by (simp add: similarity_loop_map dict_keys_def)
qed

lemma stored_sorted_docs:
  fixes sim :: "'v \<Rightarrow> 'v \<Rightarrow> 's::linorder"
  assumes "stored m"
  shows "sorted_wrt ranked_before (sorted_docs enc sim m q)"
    and "mset (sorted_docs enc sim m q) =
         mset (map (\<lambda>(i, e). (i, sim (enc q) e)) (document_embeddings m))"
proof -
  let ?items = "map (\<lambda>(i, e). (i, sim (enc q) e)) (document_embeddings m)"
  have "map fst ?items = dict_keys (document_embeddings m)"
    by (simp add: dict_keys_def comp_def case_prod_unfold)
  then have "sorted_wrt (<) (map fst ?items)" using assms by (simp add: stored_def)
  then have "sorted_wrt (\<lambda>a b. fst a < fst b) ?items" by (simp add: sorted_wrt_map)
  then show "sorted_wrt ranked_before (sorted_docs enc sim m q)"
    by (simp add: sorted_docs_def stored_similarities[OF assms] sorted_reverse_ranked)
  show "mset (sorted_docs enc sim m q) = mset ?items"
    by (simp add: sorted_docs_def stored_similarities[OF assms] mset_sorted_reverse)
qed


lemma add_loop_documents:
  "dict_get (documents (add_loop enc m (enumerate n docs))) i =
     (if n \<le> i \<and> i < n + length docs then Some (docs ! (i - n)) else dict_get (documents m) i)"
proof (induction docs arbitrary: n m)
  case Nil
  then show ?case by auto
next
  case (Cons content docs)
  show ?case
    by (auto simp: Cons.IH dict_get_set nth_Cons' Suc_diff_Suc)
qed

lemma add_loop_embeddings:
  "dict_get (document_embeddings (add_loop enc m (enumerate n docs))) i =
     (if n \<le> i \<and> i < n + length docs then Some (enc (representative (docs ! (i - n))))
      else dict_get (document_embeddings m) i)"
proof (induction docs arbitrary: n m)
  case Nil
  then show ?case by auto
next
  case (Cons content docs)
  show ?case
    by (auto simp: Cons.IH dict_get_set nth_Cons' Suc_diff_Suc)
qed




lemma stored_init: "stored init"
  by (simp add: stored_def init_def dict_keys_def)


lemma stored_lengths:
  assumes "stored m"
  shows "length (documents m) = length (document_embeddings m)"
proof -
  have "length (dict_keys (documents m)) = length (document_embeddings m)"
    using assms by (simp add: stored_def)
  then show ?thesis by (simp add: dict_keys_def)
qed

lemma stored_sorted_docs_keys:
  fixes sim :: "'v \<Rightarrow> 'v \<Rightarrow> 's::linorder"
  assumes "stored m" and "p \<in> set (sorted_docs enc sim m q)"
  shows "fst p \<in> set (dict_keys (documents m))"
proof -
  have "p \<in># mset (sorted_docs enc sim m q)" using assms(2) by simp
  then have "p \<in> set (map (\<lambda>(i, e). (i, sim (enc q) e)) (document_embeddings m))"
    unfolding stored_sorted_docs(2)[OF assms(1)] by simp
  then have "fst p \<in> set (dict_keys (document_embeddings m))"
    by (force simp: dict_keys_def)
  then show ?thesis using assms(1) by (simp add: stored_def)
qed

lemma length_sorted_docs:
  fixes sim :: "'v \<Rightarrow> 'v \<Rightarrow> 's::linorder"
  assumes "stored m"
  shows "length (sorted_docs enc sim m q) = length (documents m)"
proof -
  have "size (mset (sorted_docs enc sim m q)) = length (document_embeddings m)"
    unfolding stored_sorted_docs(2)[OF assms] by simp
  then show ?thesis using stored_lengths[OF assms] by simp
qed

lemma query_slice:
  fixes sim :: "'v \<Rightarrow> 'v \<Rightarrow> 's::linorder"
  assumes "stored m"
  shows "\<exists>rs. query enc sim m q top_k = Inr rs
     \<and> list_all2 (\<lambda>p r. dict_get (documents m) (fst p) = Some r)
          (slice_to (sorted_docs enc sim m q) top_k) rs"
proof -
  have "fst p \<in> set (dict_keys (documents m))"
    if "p \<in> set (slice_to (sorted_docs enc sim m q) top_k)" for p
  proof -
    have "p \<in> set (sorted_docs enc sim m q)"
      using that by (auto simp: slice_to_def dest: in_set_takeD split: if_splits)
    with assms show ?thesis by (rule stored_sorted_docs_keys)
  qed
  then have "\<forall>p\<in>set (slice_to (sorted_docs enc sim m q) top_k).
      fst p \<in> set (dict_keys (documents m))" by blast
  then show ?thesis unfolding query_def by (rule collect_all)
qed


lemma join_snoc: "join sep (xs @ [x]) = (if xs = [] then x else join sep xs @ sep @ x)"
  by (induction sep xs rule: join.induct) auto

lemma join_empty_iff: "\<forall>x\<in>set xs. x \<noteq> [] \<Longrightarrow> join sep xs = [] \<longleftrightarrow> xs = []"
  by (induction sep xs rule: join.induct) auto

lemma representative_Nil: "representative [] = []"
  by (simp add: representative_def)

lemma representative_snoc:
  "representative (content @ [(k, v)]) =
     (if v = [] then representative content
      else if representative content = [] then k @ str '': '' @ v
      else representative content @ str '' '' @ k @ str '': '' @ v)"
proof -
  let ?xs = "map (\<lambda>(k, v). k @ str '': '' @ v) (filter (\<lambda>(k, v). v \<noteq> []) content)"
  have "\<forall>x\<in>set ?xs. x \<noteq> []" by (auto simp: str_def)
  then have "join (str '' '') ?xs = [] \<longleftrightarrow> ?xs = []" by (rule join_empty_iff)
  then show ?thesis by (auto simp: representative_def join_snoc)
qed

section \<open>Claims about the index\<close>

lemmas index_eval = string_eval stub_encode_def stub_similarity_def init_def add_documents_def
  representative_def query_def sorted_docs_def sorted_reverse_def slice_to_def stored_def

text \<open>
  Claim C4.  In a stored state and for \<open>top_k \<ge> 0\<close>, \<open>query\<close> returns without error the
  records of the first \<open>min(top_k, n)\<close> entries of the ranking, \<open>n\<close> being the number of
  stored entries.  The ranking holds every stored index with its score exactly once, in
  descending score, entries of equal score in ascending index.  With \<open>top_k\<close> beyond \<open>n\<close>
  all records are returned.
\<close>
theorem query_ranked:
  fixes sim :: "'v \<Rightarrow> 'v \<Rightarrow> 's::linorder"
  assumes "stored m" and "0 \<le> top_k"
  shows "\<exists>rs. query enc sim m q top_k = Inr rs
     \<and> length rs = min (nat top_k) (length (documents m))
     \<and> list_all2 (\<lambda>p r. dict_get (documents m) (fst p) = Some r)
          (take (nat top_k) (sorted_docs enc sim m q)) rs
     \<and> sorted_wrt ranked_before (sorted_docs enc sim m q)
     \<and> mset (sorted_docs enc sim m q) =
         mset (map (\<lambda>(i, e). (i, sim (enc q) e)) (document_embeddings m))"
proof -
  obtain rs where rs: "query enc sim m q top_k = Inr rs"
      "list_all2 (\<lambda>p r. dict_get (documents m) (fst p) = Some r)
          (slice_to (sorted_docs enc sim m q) top_k) rs"
    using query_slice[OF assms(1)] by blast
  have sl: "slice_to (sorted_docs enc sim m q) top_k = take (nat top_k) (sorted_docs enc sim m q)"
    using assms(2) by (simp add: slice_to_def)
  have "length (take (nat top_k) (sorted_docs enc sim m q)) = length rs"
    using rs(2) unfolding sl by (rule list_all2_lengthD)
  then have "length rs = min (nat top_k) (length (documents m))"
    by (simp add: length_sorted_docs[OF assms(1)] min.commute)
  then show ?thesis
    using rs sl stored_sorted_docs[OF assms(1), of enc sim q] by auto
qed

text \<open>Three documents, two of them with the score 1, and \<open>top_k = 5\<close>.\<close>
theorem query_ranked_witness:
  "stored (add_documents stub_encode init
      [[(str ''a'', str ''b'')], [(str ''a'', str ''c'')], [(str ''a'', str ''b''), (str ''x'', [])]])
   \<and> query stub_encode stub_similarity
        (add_documents stub_encode init
          [[(str ''a'', str ''b'')], [(str ''a'', str ''c'')], [(str ''a'', str ''b''), (str ''x'', [])]])
        (str ''a: b'') 5 =
      Inr [[(str ''a'', str ''b'')], [(str ''a'', str ''b''), (str ''x'', [])], [(str ''a'', str ''c'')]]"
  using query_ranked[of "add_documents stub_encode init
      [[(str ''a'', str ''b'')], [(str ''a'', str ''c'')], [(str ''a'', str ''b''), (str ''x'', [])]]"
      5 stub_encode stub_similarity "str ''a: b''"]
  by (simp add: index_eval)

text \<open>
  Claim C2, as stated, at two stored documents and \<open>top_k = -1\<close>: the call is not rejected;
  it returns the ranking without its last entry.
\<close>
theorem negative_top_k_counterexample:
  "query stub_encode stub_similarity
        (add_documents stub_encode init [[(str ''a'', str ''b'')], [(str ''a'', str ''c'')]])
        (str ''a: b'') (- 1) =
      Inr [[(str ''a'', str ''b'')]]"
  by (simp add: index_eval)

text \<open>
  Claim C2, amended.  In a stored state and for \<open>top_k < 0\<close>, \<open>query\<close> raises nothing: it
  returns the records of the ranking without its last \<open>-top_k\<close> entries, that is, of its
  first \<open>max(0, n + top_k)\<close> entries.
\<close>
theorem query_negative_top_k:
  fixes sim :: "'v \<Rightarrow> 'v \<Rightarrow> 's::linorder"
  assumes "stored m" and "top_k < 0"
  shows "\<exists>rs. query enc sim m q top_k = Inr rs
     \<and> length rs = nat (int (length (documents m)) + top_k)
     \<and> list_all2 (\<lambda>p r. dict_get (documents m) (fst p) = Some r)
          (take (nat (int (length (documents m)) + top_k)) (sorted_docs enc sim m q)) rs"
proof -
  obtain rs where rs: "query enc sim m q top_k = Inr rs"
      "list_all2 (\<lambda>p r. dict_get (documents m) (fst p) = Some r)
          (slice_to (sorted_docs enc sim m q) top_k) rs"
    using query_slice[OF assms(1)] by blast
  have sl: "slice_to (sorted_docs enc sim m q) top_k =
      take (nat (int (length (documents m)) + top_k)) (sorted_docs enc sim m q)"
    using assms(2) by (simp add: slice_to_def length_sorted_docs[OF assms(1)])
  have "length (take (nat (int (length (documents m)) + top_k)) (sorted_docs enc sim m q)) =
      length rs"
    using rs(2) unfolding sl by (rule list_all2_lengthD)
  then have "length rs = nat (int (length (documents m)) + top_k)"
    using assms(2) by (simp add: length_sorted_docs[OF assms(1)])
  then show ?thesis using rs sl by auto
qed

text \<open>Two documents and \<open>top_k = -1\<close>.\<close>
theorem query_negative_top_k_witness:
  "stored (add_documents stub_encode init [[(str ''a'', str ''b'')], [(str ''a'', str ''c'')]])
   \<and> (- 1 :: int) < 0
   \<and> query stub_encode stub_similarity
        (add_documents stub_encode init [[(str ''a'', str ''b'')], [(str ''a'', str ''c'')]])
        (str ''a: c'') (- 1) =
      Inr [[(str ''a'', str ''c'')]]"
  using query_negative_top_k[of
      "add_documents stub_encode init [[(str ''a'', str ''b'')], [(str ''a'', str ''c'')]]"
      "- 1" stub_encode stub_similarity "str ''a: c''"]
  by (simp add: index_eval)

text \<open>
  Claim C6.  After \<open>add_documents\<close>, the embedding stored for document \<open>i\<close> is that of the
  string made of \<open>key: value\<close> for the entries of the record with a non-empty value, in the
  order of the record and joined by one space; the record stored for \<open>i\<close> is the whole
  record, the entries with an empty value included.
\<close>
theorem add_documents_representative:
  assumes "i < length docs"
  shows "dict_get (document_embeddings (add_documents enc m docs)) i =
           Some (enc (join (str '' '')
                  (map (\<lambda>(k, v). k @ str '': '' @ v) (filter (\<lambda>(k, v). v \<noteq> []) (docs ! i)))))
       \<and> dict_get (documents (add_documents enc m docs)) i = Some (docs ! i)"
  using assms
  by (simp add: add_documents_def add_loop_embeddings add_loop_documents representative_def)

text \<open>A record with an empty value between two others: the string is \<open>a: b y: z\<close>.\<close>
theorem add_documents_representative_witness:
  "dict_get (document_embeddings (add_documents stub_encode init
       [[(str ''a'', str ''c'')], [(str ''a'', str ''b''), (str ''x'', []), (str ''y'', str ''z'')]])) 1 =
     Some (str ''a: b y: z'')
   \<and> dict_get (documents (add_documents stub_encode init
       [[(str ''a'', str ''c'')], [(str ''a'', str ''b''), (str ''x'', []), (str ''y'', str ''z'')]])) 1 =
     Some [(str ''a'', str ''b''), (str ''x'', []), (str ''y'', str ''z'')]"
  using add_documents_representative[of 1
       "[[(str ''a'', str ''c'')], [(str ''a'', str ''b''), (str ''x'', []), (str ''y'', str ''z'')]]"
       stub_encode init]
  by (simp add: index_eval)


subsection \<open>Cosine similarity\<close>

lemma dot_Nil [simp]: "dot [] b = 0" "dot a [] = 0"
  by (simp_all add: dot_def)

lemma dot_Cons [simp]: "dot (x # a) (y # b) = x * y + dot a b"
  by (simp add: dot_def)



















section \<open>Claims about the corpus\<close>

lemma parse_document_empty:
  "unsupported d file_path \<or> decode_fails d file_path \<Longrightarrow> parse_document d file_path = []"
  by (auto simp: unsupported_def decode_fails_def parse_document_def parse_pdf_def parse_html_def
      Let_def split: if_splits)

lemma extract_information_empty: "extract_information [] = []"
  by (simp add: extract_information_def splitlines_def)

text \<open>
  Claim C7.  The corpus has one record per document path, in the order of the paths: the
  record extracted from the text of that document.  A document with an unsupported
  extension, or whose decoder fails, contributes the empty record, and the extractor
  returns the empty record on the empty text.
\<close>
theorem corpus_one_record_per_document:
  "length (extracted_info d paths) = length paths
   \<and> (\<forall>i<length paths.
        extracted_info d paths ! i = extract_information (parse_document d (paths ! i)))
   \<and> (\<forall>i<length paths. unsupported d (paths ! i) \<or> decode_fails d (paths ! i) \<longrightarrow>
        extracted_info d paths ! i = [])
   \<and> extract_information [] = []"
  by (simp add: extracted_info_def parse_document_empty extract_information_empty)

text \<open>A PDF that fails to open, an HTML file, and a file of another kind.\<close>
theorem corpus_one_record_per_document_witness:
  "decode_fails stub_decoders (str ''a.pdf'') \<and> unsupported stub_decoders (str ''c.txt'')
   \<and> extracted_info stub_decoders [str ''a.pdf'', str ''b.html'', str ''c.txt''] =
       [[], [(str ''Name'', str ''Dell''), (str ''Name: Dell'', [])], []]"
  using corpus_one_record_per_document[of stub_decoders
      "[str ''a.pdf'', str ''b.html'', str ''c.txt'']"]
  by (simp add: string_eval stub_decoders_def extracted_info_def parse_document_def
      parse_pdf_def parse_html_def unsupported_def decode_fails_def)

section \<open>Properties of the JSON writer and reader\<close>

subsection \<open>Strings\<close>

lemma hex_value_digit: "d < 16 \<Longrightarrow> hex_value (hex_digit d) = Some d"
  by (auto simp: hex_value_def hex_digit_def)

lemma hex_digits_value:
  fixes n :: nat
  assumes "n < 65536"
  shows "((n div 4096 mod 16 * 16 + n div 256 mod 16) * 16 + n div 16 mod 16) * 16 + n mod 16 = n"
proof -
  have a: "n div 4096 mod 16 = n div 4096"
    using assms by (simp add: div_less_iff_less_mult)
  have b: "n div 4096 * 16 + n div 256 mod 16 = n div 256"
  proof -
    have "n div 4096 = n div 256 div 16" by (simp add: div_mult2_eq)
    then show ?thesis by simp
  qed
  have c: "n div 256 * 16 + n div 16 mod 16 = n div 16"
  proof -
    have "n div 256 = n div 16 div 16" by (simp add: div_mult2_eq)
    then show ?thesis by simp
  qed
  show ?thesis by (simp add: a b c)
qed

lemma decode_digits:
  assumes "a < 16" "b < 16" "c < 16" "d < 16"
  shows "decode_uXXXX ([hex_digit a, hex_digit b, hex_digit c, hex_digit d] @ t) =
         Some (((a * 16 + b) * 16 + c) * 16 + d)"
  by (simp add: decode_uXXXX_def hex_value_digit assms)

lemma decode_hex4:
  assumes "n < 65536"
  shows "decode_uXXXX (hex4 n @ t) = Some n"
proof -
  have "decode_uXXXX (hex4 n @ t) =
      Some (((n div 4096 mod 16 * 16 + n div 256 mod 16) * 16 + n div 16 mod 16) * 16 + n mod 16)"
    unfolding hex4_def by (rule decode_digits) simp_all
  then show ?thesis by (simp only: hex_digits_value[OF assms])
qed

lemma length_hex4: "length (hex4 n) = 4"
  by (simp add: hex4_def)


lemma scanstring_quote: "scanstring chunks (quote # cs) = Some (chunks, cs)"
  by simp

lemma scanstring_literal:
  "c \<noteq> quote \<Longrightarrow> c \<noteq> backslash \<Longrightarrow> 32 \<le> c \<Longrightarrow>
   scanstring chunks (c # cs) = scanstring (chunks @ [c]) cs"
  by simp

lemma scanstring_table:
  "backslash_table e = Some ch \<Longrightarrow> e \<noteq> 117 \<Longrightarrow>
   scanstring chunks (backslash # e # r) = scanstring (chunks @ [ch]) r"
  by (simp add: str_def)

lemma scanstring_u:
  "scanstring chunks (backslash # 117 # r) =
     (case decode_uXXXX r of
        None \<Rightarrow> None
      | Some uni \<Rightarrow>
          if is_high_surrogate uni \<and> take 2 (drop 4 r) = [backslash, 117] then
            (case decode_uXXXX (drop 6 r) of
               None \<Rightarrow> None
             | Some uni2 \<Rightarrow>
                 if is_low_surrogate uni2
                 then scanstring (chunks @ [65536 + ((uni - 55296) * 1024 + (uni2 - 56320))])
                        (drop 10 r)
                 else scanstring (chunks @ [uni]) (drop 4 r))
          else scanstring (chunks @ [uni]) (drop 4 r))"
  by (simp add: str_def is_high_surrogate_def is_low_surrogate_def split: option.splits)

lemma scanstring_u_plain:
  assumes "n < 65536" and "is_high_surrogate n \<Longrightarrow> no_low_escape tail"
  shows "scanstring chunks (backslash # 117 # hex4 n @ tail) = scanstring (chunks @ [n]) tail"
proof (cases "is_high_surrogate n \<and> take 2 tail = [backslash, 117]")
  case True
  then have "no_low_escape tail" using assms(2) by simp
  then obtain u where u: "decode_uXXXX (drop 2 tail) = Some u" "\<not> is_low_surrogate u"
    using True by (auto simp: no_low_escape_def split: option.splits)
  show ?thesis
    unfolding scanstring_u
    using True u by (simp add: decode_hex4[OF assms(1)] length_hex4)
next
  case False
  then show ?thesis
    unfolding scanstring_u
    by (auto simp: decode_hex4[OF assms(1)] length_hex4)
qed

lemma scanstring_u_pair:
  assumes "65536 \<le> c" and "c < 1114112"
  shows "scanstring chunks
           (backslash # 117 # hex4 (55296 + (c - 65536) div 1024 mod 1024)
              @ backslash # 117 # hex4 (56320 + (c - 65536) mod 1024) @ tail) =
         scanstring (chunks @ [c]) tail"
proof -
  let ?n = "c - 65536"
  let ?s1 = "55296 + ?n div 1024 mod 1024"
  let ?s2 = "56320 + ?n mod 1024"
  have s1: "?s1 < 65536" and s2: "?s2 < 65536" by simp_all
  have hi: "is_high_surrogate ?s1" by (simp add: is_high_surrogate_def)
  have lo: "is_low_surrogate ?s2" by (simp add: is_low_surrogate_def)
  have "?n div 1024 < 1024" using assms(2) by (simp add: div_less_iff_less_mult)
  then have "?n div 1024 mod 1024 = ?n div 1024" by simp
  then have val: "65536 + ((?s1 - 55296) * 1024 + (?s2 - 56320)) = c"
    using assms(1) by simp
  have d1: "decode_uXXXX (hex4 ?s1 @ backslash # 117 # hex4 ?s2 @ tail) = Some ?s1"
    using s1 by (rule decode_hex4)
  have d2: "decode_uXXXX (hex4 ?s2 @ tail) = Some ?s2"
    using s2 by (rule decode_hex4)
  show ?thesis
    unfolding scanstring_u d1
    using hi lo val by (simp add: length_hex4 d2)
qed

lemma scanstring_escape:
  assumes "c < 1114112" and "is_high_surrogate c \<Longrightarrow> no_low_escape tail"
  shows "scanstring chunks (escape_ascii c @ tail) = scanstring (chunks @ [c]) tail"
proof -
  consider (bs) "c = backslash" | (q) "c = quote"
    | (lit) "32 \<le> c" "c \<le> 126" "c \<noteq> backslash" "c \<noteq> quote"
    | (tab) "c = 8 \<or> c = 12 \<or> c = 10 \<or> c = 13 \<or> c = 9"
    | (u) "c < 65536" "\<not> (32 \<le> c \<and> c \<le> 126)" "c \<noteq> 8" "c \<noteq> 12" "c \<noteq> 10" "c \<noteq> 13" "c \<noteq> 9"
    | (pair) "65536 \<le> c"
    by linarith
  then show ?thesis
  proof cases
    case bs
    then show ?thesis
      by (simp add: escape_ascii_def replace_def scanstring_table backslash_table_def
          del: scanstring.simps)
  next
    case q
    then show ?thesis
      by (simp add: escape_ascii_def replace_def scanstring_table backslash_table_def
          del: scanstring.simps)
  next
    case lit
    then show ?thesis
      by (simp add: escape_ascii_def scanstring_literal del: scanstring.simps)
  next
    case tab
    then show ?thesis
      by (auto simp: escape_ascii_def replace_def str_def scanstring_table backslash_table_def
          simp del: scanstring.simps)
  next
    case u
    have "escape_ascii c = backslash # 117 # hex4 c"
      using u by (auto simp: escape_ascii_def replace_def str_def)
    then show ?thesis
      using scanstring_u_plain[OF u(1) assms(2)] by simp
  next
    case pair
    have "escape_ascii c = backslash # 117 # hex4 (55296 + (c - 65536) div 1024 mod 1024)
              @ backslash # 117 # hex4 (56320 + (c - 65536) mod 1024)"
      using pair by (simp add: escape_ascii_def replace_def str_def Let_def)
    then show ?thesis
      using scanstring_u_pair[OF pair assms(1)] by simp
  qed
qed


lemma no_low_escape_quote: "no_low_escape (quote # t)"
  by (simp add: no_low_escape_def)

lemma no_low_escape_escape:
  assumes "c < 1114112" and "\<not> is_low_surrogate c"
  shows "no_low_escape (escape_ascii c @ t)"
proof -
  consider (bs) "c = backslash" | (q) "c = quote"
    | (lit) "32 \<le> c" "c \<le> 126" "c \<noteq> backslash" "c \<noteq> quote"
    | (tab) "c = 8 \<or> c = 12 \<or> c = 10 \<or> c = 13 \<or> c = 9"
    | (u) "c < 65536" "\<not> (32 \<le> c \<and> c \<le> 126)" "c \<noteq> 8" "c \<noteq> 12" "c \<noteq> 10" "c \<noteq> 13" "c \<noteq> 9"
    | (pair) "65536 \<le> c"
    by linarith
  then show ?thesis
  proof cases
    case bs
    then show ?thesis by (simp add: no_low_escape_def escape_ascii_def replace_def)
  next
    case q
    then show ?thesis by (simp add: no_low_escape_def escape_ascii_def replace_def)
  next
    case lit
    then show ?thesis by (simp add: no_low_escape_def escape_ascii_def)
  next
    case tab
    then show ?thesis by (auto simp: no_low_escape_def escape_ascii_def replace_def str_def)
  next
    case u
    have "escape_ascii c = backslash # 117 # hex4 c"
      using u by (auto simp: escape_ascii_def replace_def str_def)
    then show ?thesis
      using assms(2) by (simp add: no_low_escape_def decode_hex4[OF u(1)])
  next
    case pair
    let ?s1 = "55296 + (c - 65536) div 1024 mod 1024"
    have e: "escape_ascii c = backslash # 117 # hex4 ?s1
              @ backslash # 117 # hex4 (56320 + (c - 65536) mod 1024)"
      using pair by (simp add: escape_ascii_def replace_def str_def Let_def)
    have "?s1 < 65536" by simp
    then have "decode_uXXXX (hex4 ?s1 @ backslash # 117 # hex4 (56320 + (c - 65536) mod 1024) @ t)
        = Some ?s1" by (rule decode_hex4)
    moreover have "\<not> is_low_surrogate ?s1" by (simp add: is_low_surrogate_def)
    ultimately show ?thesis by (simp add: no_low_escape_def e)
  qed
qed

lemma json_safe_Cons:
  "json_safe (c # s) \<Longrightarrow> c < 1114112 \<and> json_safe s"
  by (cases s) (auto simp: json_safe_def)

lemma json_safe_pair:
  "json_safe (c # c' # s) \<Longrightarrow> is_high_surrogate c \<Longrightarrow> \<not> is_low_surrogate c'"
  by (auto simp: json_safe_def)

lemma scanstring_body:
  "json_safe s \<Longrightarrow>
   scanstring chunks (concat (map escape_ascii s) @ quote # rest) = Some (chunks @ s, rest)"
proof (induction s arbitrary: chunks)
  case Nil
  then show ?case by simp
next
  case (Cons c s)
  have c: "c < 1114112" and s: "json_safe s" using Cons.prems json_safe_Cons by blast+
  have tail: "no_low_escape (concat (map escape_ascii s) @ quote # rest)" if "is_high_surrogate c"
  proof (cases s)
    case Nil
    then show ?thesis by (simp add: no_low_escape_quote)
  next
    case (Cons c' s')
    have "\<not> is_low_surrogate c'" using Cons.prems that Cons json_safe_pair by blast
    moreover have "c' < 1114112" using s Cons json_safe_Cons by blast
    ultimately show ?thesis using Cons by (simp add: no_low_escape_escape)
  qed
  have "scanstring chunks (escape_ascii c @ concat (map escape_ascii s) @ quote # rest) =
        scanstring (chunks @ [c]) (concat (map escape_ascii s) @ quote # rest)"
    using c tail by (rule scanstring_escape)
  then show ?case using Cons.IH[OF s] by simp
qed

lemma scanstring_encoded:
  "json_safe s \<Longrightarrow>
   scanstring [] (tl (encode_basestring_ascii s) @ rest) = Some (s, rest)"
  using scanstring_body[of s "[]" rest] by (simp add: encode_basestring_ascii_def)

subsection \<open>The steps of the reader\<close>

lemma scan_Value:
  "scan Value s =
     (case s of
        [] \<Rightarrow> None
      | c # r \<Rightarrow>
          if c = quote then
            (case scanstring [] r of
               None \<Rightarrow> None
             | Some (content, r') \<Rightarrow> Some (JString content, r'))
          else if [c] = str ''{'' then
            (case skip_whitespace r of
               [] \<Rightarrow> None
             | c' # r' \<Rightarrow>
                 if [c'] = str ''}'' then Some (JObject [], r')
                 else if c' = quote then scan (ObjectLoop []) r'
                 else None)
          else if [c] = str ''['' then
            (case skip_whitespace r of
               [] \<Rightarrow> None
             | c' # r' \<Rightarrow>
                 if [c'] = str '']'' then Some (JArray [], r')
                 else scan (ArrayLoop []) (c' # r'))
          else if take 4 s = str ''null'' then Some (JNull, drop 4 s)
          else if take 4 s = str ''true'' then Some (JBool True, drop 4 s)
          else if take 5 s = str ''false'' then Some (JBool False, drop 5 s)
          else None)"
  by (subst scan.simps) simp

lemma scan_ObjectLoop:
  "scan (ObjectLoop pairs) s =
     (case scanstring [] s of
        None \<Rightarrow> None
      | Some (key, r) \<Rightarrow>
          (case skip_whitespace r of
             [] \<Rightarrow> None
           | c # r1 \<Rightarrow>
               if c \<noteq> colon then None
               else
                 Option.bind (scan Value (skip_whitespace r1))
                   (\<lambda>(val, r2).
                      (case skip_whitespace r2 of
                         [] \<Rightarrow> None
                       | c' # r3 \<Rightarrow>
                           if [c'] = str ''}''
                           then Some (JObject (dict_of_pairs [] (pairs @ [(key, val)])), r3)
                           else if [c'] \<noteq> str '','' then None
                           else
                             (case skip_whitespace r3 of
                                [] \<Rightarrow> None
                              | c'' # r4 \<Rightarrow>
                                  if c'' \<noteq> quote then None
                                  else scan (ObjectLoop (pairs @ [(key, val)])) r4)))))"
  by (subst scan.simps) simp

lemma scan_ArrayLoop:
  "scan (ArrayLoop vals) s =
     Option.bind (scan Value s)
       (\<lambda>(val, r).
          (case skip_whitespace r of
             [] \<Rightarrow> None
           | c # r1 \<Rightarrow>
               if [c] = str '']'' then Some (JArray (vals @ [val]), r1)
               else if [c] \<noteq> str '','' then None
               else scan (ArrayLoop (vals @ [val])) (skip_whitespace r1)))"
  by (subst scan.simps) simp

subsection \<open>Objects\<close>

lemma skip_whitespace_stop:
  "c \<noteq> 32 \<Longrightarrow> c \<noteq> 9 \<Longrightarrow> c \<noteq> 10 \<Longrightarrow> c \<noteq> 13 \<Longrightarrow> skip_whitespace (c # t) = c # t"
  by (simp add: skip_whitespace_def)

lemma skip_whitespace_indent:
  "c \<noteq> 32 \<Longrightarrow> c \<noteq> 9 \<Longrightarrow> c \<noteq> 10 \<Longrightarrow> c \<noteq> 13 \<Longrightarrow>
   skip_whitespace (newline_indent level @ c # t) = c # t"
  by (simp add: skip_whitespace_def newline_indent_def newline_def str_def dropWhile_append)

lemma encode_Cons: "encode_basestring_ascii s = quote # tl (encode_basestring_ascii s)"
  by (simp add: encode_basestring_ascii_def)

lemma scan_value_string:
  assumes "json_safe v"
  shows "scan Value (encode_basestring_ascii v @ rest) = Some (JString v, rest)"
proof -
  have "scan Value (quote # tl (encode_basestring_ascii v) @ rest) = Some (JString v, rest)"
    by (subst scan_Value) (simp add: scanstring_encoded[OF assms])
  then show ?thesis by (subst encode_Cons) simp
qed

lemma join_Cons2: "ys \<noteq> [] \<Longrightarrow> join sep (y # ys) = y @ sep @ join sep ys"
  by (cases ys) auto

lemma join_map_hd:
  assumes "xs \<noteq> []" and "\<And>x. f x = c # tl (f x)"
  shows "join sep (map f xs) = c # tl (join sep (map f xs))"
proof (cases xs)
  case Nil
  then show ?thesis using assms(1) by simp
next
  case (Cons x xs')
  have "f x = c # tl (f x)" by (rule assms(2))
  then obtain t where t: "f x = c # t" by metis
  show ?thesis
  proof (cases xs')
    case Nil
    then show ?thesis using Cons t by simp
  next
    case (Cons y ys)
    then show ?thesis using \<open>xs = x # xs'\<close> t by simp
  qed
qed



lemma tl_encode_append:
  "tl (encode_basestring_ascii k @ x) = tl (encode_basestring_ascii k) @ x"
  by (simp add: encode_basestring_ascii_def)

lemma skip_whitespace_encode:
  "skip_whitespace (encode_basestring_ascii v @ x) = encode_basestring_ascii v @ x"
  by (simp add: encode_basestring_ascii_def skip_whitespace_def)

lemma skip_whitespace_space: "skip_whitespace (32 # x) = skip_whitespace x"
  by (simp add: skip_whitespace_def)

lemma object_step:
  assumes "json_safe k" and "json_safe v"
  shows "scan (ObjectLoop pairs)
           (tl (encode_basestring_ascii k) @ 58 # 32 # encode_basestring_ascii v @ after) =
         (case skip_whitespace after of
            [] \<Rightarrow> None
          | c' # r3 \<Rightarrow>
              if [c'] = str ''}''
              then Some (JObject (dict_of_pairs [] (pairs @ [(k, JString v)])), r3)
              else if [c'] \<noteq> str '','' then None
              else
                (case skip_whitespace r3 of
                   [] \<Rightarrow> None
                 | c'' # r4 \<Rightarrow>
                     if c'' \<noteq> quote then None
                     else scan (ObjectLoop (pairs @ [(k, JString v)])) r4))"
proof -
  have ks: "scanstring [] (tl (encode_basestring_ascii k) @ r) = Some (k, r)" for r
    using assms(1) by (rule scanstring_encoded)
  have vs: "scan Value (encode_basestring_ascii v @ r) = Some (JString v, r)" for r
    using assms(2) by (rule scan_value_string)
  show ?thesis
    by (subst scan_ObjectLoop)
      (simp add: ks colon_def skip_whitespace_stop skip_whitespace_space skip_whitespace_encode vs)
qed

lemma scan_object_loop:
  assumes "items \<noteq> []" and "\<forall>p\<in>set items. json_safe (fst p) \<and> json_safe (snd p)"
  shows "scan (ObjectLoop pairs)
           (tl (join (str '','' @ newline_indent l1)
                  (map (\<lambda>(key, val).
                      encode_basestring_ascii key @ str '': '' @ encode_basestring_ascii val) items))
            @ newline_indent l0 @ str ''}'' @ rest) =
         Some (JObject (dict_of_pairs [] (pairs @ map (\<lambda>(k, v). (k, JString v)) items)), rest)"
  using assms
proof (induction items arbitrary: pairs rule: list_nonempty_induct)
  case (single p)
  obtain k v where p: "p = (k, v)" by (cases p)
  have k: "json_safe k" and v: "json_safe v" using single p by auto
  have sk: "skip_whitespace (newline_indent l0 @ 125 # rest) = 125 # rest"
    by (rule skip_whitespace_indent) simp_all
  have "scan (ObjectLoop pairs)
           (tl (encode_basestring_ascii k) @ 58 # 32 # encode_basestring_ascii v
              @ (newline_indent l0 @ 125 # rest)) =
        Some (JObject (dict_of_pairs [] (pairs @ [(k, JString v)])), rest)"
    unfolding object_step[OF k v] sk by (simp add: str_def)
  then show ?case by (simp add: p str_def tl_encode_append)
next
  case (cons p items)
  let ?pt = "\<lambda>(key, val). encode_basestring_ascii key @ str '': '' @ encode_basestring_ascii val"
  let ?sep = "str '','' @ newline_indent l1"
  obtain k v where p: "p = (k, v)" by (cases p)
  have k: "json_safe k" and v: "json_safe v" using cons.prems p by auto
  have hd: "join ?sep (map ?pt items) = quote # tl (join ?sep (map ?pt items))"
    using cons.hyps by (rule join_map_hd) (auto simp: encode_basestring_ascii_def)
  have IH: "scan (ObjectLoop (pairs @ [(k, JString v)]))
           (tl (join ?sep (map ?pt items)) @ newline_indent l0 @ str ''}'' @ rest) =
         Some (JObject (dict_of_pairs []
                 ((pairs @ [(k, JString v)]) @ map (\<lambda>(k, v). (k, JString v)) items)), rest)"
    using cons.prems by (intro cons.IH) simp
  have sk: "skip_whitespace (newline_indent l1 @ quote # t) = quote # t" for t
    by (rule skip_whitespace_indent) simp_all
  have "scan (ObjectLoop pairs)
           (tl (encode_basestring_ascii k) @ 58 # 32 # encode_basestring_ascii v
              @ (44 # newline_indent l1 @ quote # tl (join ?sep (map ?pt items))
                  @ newline_indent l0 @ str ''}'' @ rest)) =
        Some (JObject (dict_of_pairs []
                 ((pairs @ [(k, JString v)]) @ map (\<lambda>(k, v). (k, JString v)) items)), rest)"
    unfolding object_step[OF k v]
    using IH by (simp add: skip_whitespace_stop sk str_def)
  moreover have "tl (join ?sep (map ?pt (p # items))) @ newline_indent l0 @ str ''}'' @ rest =
      tl (encode_basestring_ascii k) @ 58 # 32 # encode_basestring_ascii v
              @ (44 # newline_indent l1 @ quote # tl (join ?sep (map ?pt items))
                  @ newline_indent l0 @ str ''}'' @ rest)"
  proof -
    have "join ?sep (map ?pt (p # items)) = ?pt p @ ?sep @ join ?sep (map ?pt items)"
      using cons.hyps by (simp add: join_Cons2)
    also have "\<dots> = ?pt p @ ?sep @ quote # tl (join ?sep (map ?pt items))"
      using hd by simp
    finally show ?thesis by (simp add: p str_def tl_encode_append)
  qed
  ultimately show ?case by (simp add: p)
qed


lemma dict_of_pairs_distinct:
  "distinct (map fst ps) \<Longrightarrow> set (dict_keys d) \<inter> set (map fst ps) = {} \<Longrightarrow>
   dict_of_pairs d ps = d @ ps"
proof (induction d ps rule: dict_of_pairs.induct)
  case (1 d)
  then show ?case by simp
next
  case (2 d k v pairs)
  have new: "k \<notin> set (dict_keys d)" using "2.prems"(2) by auto
  have ds: "dict_set d k v = d @ [(k, v)]" by (rule dict_set_new[OF new])
  have "set (dict_keys (d @ [(k, v)])) \<inter> set (map fst pairs) = {}"
    using "2.prems" by (auto simp: dict_keys_def)
  moreover have "distinct (map fst pairs)" using "2.prems"(1) by simp
  ultimately show ?case using "2.IH" by (simp add: ds)
qed

lemma iterencode_dict_Cons: "iterencode_dict dct level = 123 # tl (iterencode_dict dct level)"
  by (simp add: iterencode_dict_def str_def)

lemma scan_value_object:
  assumes "distinct (dict_keys dct)"
    and "\<forall>p\<in>set dct. json_safe (fst p) \<and> json_safe (snd p)"
  shows "scan Value (iterencode_dict dct level @ rest) =
         Some (JObject (map (\<lambda>(k, v). (k, JString v)) dct), rest)"
proof (cases "dct = []")
  case True
  then show ?thesis
    by (subst scan_Value) (simp add: iterencode_dict_def str_def skip_whitespace_stop)
next
  case False
  let ?pt = "\<lambda>(key, val). encode_basestring_ascii key @ str '': '' @ encode_basestring_ascii val"
  let ?sep = "str '','' @ newline_indent (level + 1)"
  have hd: "join ?sep (map ?pt dct) = quote # tl (join ?sep (map ?pt dct))"
    using False by (rule join_map_hd) (auto simp: encode_basestring_ascii_def)
  have loop: "scan (ObjectLoop [])
           (tl (join ?sep (map ?pt dct)) @ newline_indent level @ str ''}'' @ rest) =
         Some (JObject (dict_of_pairs [] ([] @ map (\<lambda>(k, v). (k, JString v)) dct)), rest)"
    using False assms(2) by (rule scan_object_loop)
  have keys: "map fst (map (\<lambda>(k, v). (k, JString v)) dct) = dict_keys dct"
    by (simp add: dict_keys_def comp_def case_prod_unfold)
  have "dict_of_pairs [] (map (\<lambda>(k, v). (k, JString v)) dct) =
      [] @ map (\<lambda>(k, v). (k, JString v)) dct"
  proof (rule dict_of_pairs_distinct)
    show "distinct (map fst (map (\<lambda>(k, v). (k, JString v)) dct))"
      unfolding keys by (rule assms(1))
    show "set (dict_keys []) \<inter> set (map fst (map (\<lambda>(k, v). (k, JString v)) dct)) = {}"
      by (simp add: dict_keys_def)
  qed
  then have loop': "scan (ObjectLoop [])
           (tl (join ?sep (map ?pt dct)) @ newline_indent level @ str ''}'' @ rest) =
         Some (JObject (map (\<lambda>(k, v). (k, JString v)) dct), rest)"
    using loop by simp
  have sk: "skip_whitespace (newline_indent l @ quote # t) = quote # t" for l t
    by (rule skip_whitespace_indent) simp_all
  have shape: "iterencode_dict dct level @ rest =
      123 # newline_indent (level + 1) @ quote # tl (join ?sep (map ?pt dct))
        @ newline_indent level @ str ''}'' @ rest"
  proof -
    have "iterencode_dict dct level =
        str ''{'' @ newline_indent (level + 1) @ join ?sep (map ?pt dct)
          @ newline_indent level @ str ''}''"
      using False by (simp add: iterencode_dict_def)
    also have "\<dots> = str ''{'' @ newline_indent (level + 1) @ (quote # tl (join ?sep (map ?pt dct)))
          @ newline_indent level @ str ''}''"
      using hd by simp
    finally show ?thesis by (simp add: str_def)
  qed
  show ?thesis
    unfolding shape
    using loop' by (subst scan_Value) (simp add: sk str_def)
qed

subsection \<open>Arrays and the whole file\<close>

lemma array_step:
  assumes "distinct (dict_keys dct)"
    and "\<forall>p\<in>set dct. json_safe (fst p) \<and> json_safe (snd p)"
  shows "scan (ArrayLoop vals) (iterencode_dict dct level @ after) =
     (case skip_whitespace after of
        [] \<Rightarrow> None
      | c # r1 \<Rightarrow>
          if [c] = str '']''
          then Some (JArray (vals @ [JObject (map (\<lambda>(k, v). (k, JString v)) dct)]), r1)
          else if [c] \<noteq> str '','' then None
          else scan (ArrayLoop (vals @ [JObject (map (\<lambda>(k, v). (k, JString v)) dct)]))
                 (skip_whitespace r1))"
  by (subst scan_ArrayLoop) (simp add: scan_value_object[OF assms])

lemma skip_whitespace_indent_dict:
  "skip_whitespace (newline_indent l @ iterencode_dict dct level @ t) = iterencode_dict dct level @ t"
proof -
  have "skip_whitespace (newline_indent l @ 123 # tl (iterencode_dict dct level) @ t) =
      123 # tl (iterencode_dict dct level) @ t"
    by (rule skip_whitespace_indent) simp_all
  then show ?thesis by (subst (1 2) iterencode_dict_Cons) simp
qed

lemma join_dict_hd:
  assumes "recs \<noteq> []"
  shows "join sep (map (\<lambda>dct. iterencode_dict dct l) recs) =
         123 # tl (join sep (map (\<lambda>dct. iterencode_dict dct l) recs))"
  using assms by (rule join_map_hd) (rule iterencode_dict_Cons)

lemma skip_whitespace_indent_join:
  assumes "recs \<noteq> []"
  shows "skip_whitespace (newline_indent l0 @ join sep (map (\<lambda>dct. iterencode_dict dct l) recs) @ t) =
         join sep (map (\<lambda>dct. iterencode_dict dct l) recs) @ t"
proof -
  have "skip_whitespace (newline_indent l0
          @ 123 # tl (join sep (map (\<lambda>dct. iterencode_dict dct l) recs)) @ t) =
        123 # tl (join sep (map (\<lambda>dct. iterencode_dict dct l) recs)) @ t"
    by (rule skip_whitespace_indent) simp_all
  then show ?thesis by (subst (1 2) join_dict_hd[OF assms]) simp
qed

lemma scan_array_loop:
  assumes "recs \<noteq> []"
    and "\<forall>d\<in>set recs. distinct (dict_keys d) \<and> (\<forall>p\<in>set d. json_safe (fst p) \<and> json_safe (snd p))"
  shows "scan (ArrayLoop vals)
           (join (str '','' @ newline_indent l1) (map (\<lambda>dct. iterencode_dict dct l1) recs)
            @ newline_indent l0 @ str '']'' @ rest) =
         Some (JArray (vals @ map (\<lambda>r. JObject (map (\<lambda>(k, v). (k, JString v)) r)) recs), rest)"
  using assms
proof (induction recs arbitrary: vals rule: list_nonempty_induct)
  case (single d)
  have d: "distinct (dict_keys d)" "\<forall>p\<in>set d. json_safe (fst p) \<and> json_safe (snd p)"
    using single by auto
  have sk: "skip_whitespace (newline_indent l0 @ 93 # rest) = 93 # rest"
    by (rule skip_whitespace_indent) simp_all
  have "scan (ArrayLoop vals) (iterencode_dict d l1 @ (newline_indent l0 @ 93 # rest)) =
      Some (JArray (vals @ [JObject (map (\<lambda>(k, v). (k, JString v)) d)]), rest)"
    unfolding array_step[OF d] sk by (simp add: str_def)
  then show ?case by (simp add: str_def)
next
  case (cons d recs)
  let ?sep = "str '','' @ newline_indent l1"
  let ?obj = "\<lambda>r. JObject (map (\<lambda>(k, v). (k, JString v)) r)"
  have d: "distinct (dict_keys d)" "\<forall>p\<in>set d. json_safe (fst p) \<and> json_safe (snd p)"
    using cons.prems by auto
  have IH: "scan (ArrayLoop (vals @ [?obj d]))
           (join ?sep (map (\<lambda>dct. iterencode_dict dct l1) recs)
            @ newline_indent l0 @ str '']'' @ rest) =
         Some (JArray ((vals @ [?obj d]) @ map ?obj recs), rest)"
    using cons.prems by (intro cons.IH) simp
  note sk = skip_whitespace_indent_join[OF cons.hyps]
  have "scan (ArrayLoop vals)
      (iterencode_dict d l1 @ (44 # newline_indent l1
        @ join ?sep (map (\<lambda>dct. iterencode_dict dct l1) recs)
        @ newline_indent l0 @ str '']'' @ rest)) =
      Some (JArray ((vals @ [?obj d]) @ map ?obj recs), rest)"
    unfolding array_step[OF d]
    using IH by (simp add: skip_whitespace_stop sk str_def)
  moreover have "join ?sep (map (\<lambda>dct. iterencode_dict dct l1) (d # recs)) =
      iterencode_dict d l1 @ ?sep @ join ?sep (map (\<lambda>dct. iterencode_dict dct l1) recs)"
    using cons.hyps by (simp add: join_Cons2)
  ultimately show ?case by (simp add: str_def)
qed

lemma round_trip_records:
  assumes "\<forall>d\<in>set data. distinct (dict_keys d) \<and> (\<forall>p\<in>set d. json_safe (fst p) \<and> json_safe (snd p))"
  shows "json_loads (save_to_json data) =
         Some (JArray (map (\<lambda>r. JObject (map (\<lambda>(k, v). (k, JString v)) r)) data))"
proof (cases "data = []")
  case True
  have "scan Value (91 # [93]) = Some (JArray [], [])"
    by (subst scan_Value) (simp add: str_def skip_whitespace_stop)
  then show ?thesis
    using True
    by (simp add: json_loads_def save_to_json_def iterencode_list_def str_def
        skip_whitespace_stop skip_whitespace_def[of "[]"])
next
  case False
  let ?J = "join (str '','' @ newline_indent 1) (map (\<lambda>dct. iterencode_dict dct 1) data)"
  have shape: "save_to_json data = 91 # newline_indent 1 @ ?J @ newline_indent 0 @ str '']'' @ []"
    using False by (simp add: save_to_json_def iterencode_list_def str_def)
  have loop: "scan (ArrayLoop []) (?J @ newline_indent 0 @ str '']'' @ []) =
      Some (JArray ([] @ map (\<lambda>r. JObject (map (\<lambda>(k, v). (k, JString v)) r)) data), [])"
    using False assms by (rule scan_array_loop)
  note sk = skip_whitespace_indent_join[OF False]
  obtain t where t: "?J @ newline_indent 0 @ str '']'' @ [] = 123 # t"
    using join_dict_hd[OF False, of "str '','' @ newline_indent 1" 1] by (metis append_Cons)
  have loop2: "scan (ArrayLoop []) (123 # t) =
      Some (JArray (map (\<lambda>r. JObject (map (\<lambda>(k, v). (k, JString v)) r)) data), [])"
    using loop unfolding t by simp
  have "scan Value (91 # newline_indent 1 @ ?J @ newline_indent 0 @ str '']'' @ []) =
      Some (JArray (map (\<lambda>r. JObject (map (\<lambda>(k, v). (k, JString v)) r)) data), [])"
    using t loop2 by (subst scan_Value) (simp add: sk skip_whitespace_indent str_def)
  then show ?thesis
    unfolding json_loads_def shape
    by (simp add: skip_whitespace_stop skip_whitespace_def[of "[]"])
qed

section \<open>Claims about the saved file\<close>

lemma distinct_first_pass:
  "distinct (dict_keys r) \<Longrightarrow> distinct (dict_keys (first_pass r lines))"
proof (induction lines arbitrary: r)
  case Nil
  then show ?case by simp
next
  case (Cons line lines)
  show ?case
  proof (cases "key_value line")
    case None
    then show ?thesis using Cons by simp
  next
    case (Some kv)
    obtain k v where "kv = (k, v)" by (cases kv)
    then show ?thesis using Some Cons by (simp add: distinct_dict_set)
  qed
qed

lemma distinct_second_pass:
  "distinct (dict_keys r) \<Longrightarrow> distinct (dict_keys (second_pass r lines))"
  by (induction lines arbitrary: r) (simp_all add: distinct_dict_set)

lemma distinct_extract_information: "distinct (dict_keys (extract_information t))"
proof -
  have "distinct (dict_keys ([] :: pyrecord))" by (simp add: dict_keys_def)
  then show ?thesis
    by (simp add: extract_information_def Let_def distinct_second_pass distinct_first_pass)
qed

lemmas json_eval = save_to_json_def iterencode_list_def iterencode_dict_def
  encode_basestring_ascii_def escape_ascii_def replace_def hex4_def hex_digit_def
  newline_indent_def json_loads_def skip_whitespace_def decode_uXXXX_def hex_value_def
  backslash_table_def json_safe_def is_high_surrogate_def is_low_surrogate_def

text \<open>
  Claim C9, amended.  For every list of extracted records whose keys and values are
  strings in which no high surrogate is directly followed by a low surrogate, reading back
  the text that \<open>save_to_json\<close> writes gives an array with one object per record, whose
  keys, in the order of the record, carry the values of the record.
\<close>
theorem json_round_trip:
  assumes "\<forall>r\<in>set (map extract_information texts).
             \<forall>p\<in>set r. json_safe (fst p) \<and> json_safe (snd p)"
  shows "json_loads (save_to_json (map extract_information texts)) =
         Some (JArray (map (\<lambda>r. JObject (map (\<lambda>(k, v). (k, JString v)) r))
                        (map extract_information texts)))"
proof (rule round_trip_records)
  show "\<forall>d\<in>set (map extract_information texts).
      distinct (dict_keys d) \<and> (\<forall>p\<in>set d. json_safe (fst p) \<and> json_safe (snd p))"
    using assms by (auto simp: distinct_extract_information)
qed

text \<open>The records of \<open>"Name: Dell\nPrice: 500"\<close> and of the empty text.\<close>
theorem json_round_trip_witness:
  "json_loads (save_to_json (map extract_information [str ''Name: Dell\<newline>Price: 500'', []])) =
     Some (JArray
       [JObject [(str ''Name'', JString (str ''Dell'')), (str ''Price'', JString (str ''500'')),
                 (str ''Name: Dell'', JString []), (str ''Price: 500'', JString [])],
        JObject []])"
  using json_round_trip[of "[str ''Name: Dell\<newline>Price: 500'', []]"]
  by (simp add: string_eval json_safe_def is_high_surrogate_def is_low_surrogate_def)

text \<open>
  Claim C9, as stated, at the text made of the code points \<open>U+D800\<close> and \<open>U+DC00\<close>: the
  extracted record has this text as its only key; it is written as \<open>"\ud800\udc00"\<close>, which
  the reader takes for the one character \<open>U+10000\<close>, so the key read back differs.
\<close>
theorem surrogate_pair_counterexample:
  "extract_information [55296, 56320] = [([55296, 56320], [])]
   \<and> json_loads (save_to_json [extract_information [55296, 56320]]) =
       Some (JArray [JObject [([65536], JString [])]])"
  apply (simp add: string_eval json_eval)
  apply (subst scan_Value, simp add: str_def json_eval)
  apply (subst scan_ArrayLoop, subst scan_Value, simp add: str_def json_eval)
  apply (subst scan_ObjectLoop, simp add: str_def json_eval colon_def)
  apply (subst scan_Value, simp add: str_def json_eval)
  done

end
